theory Spec2Isabelle
  imports
    Main
    "HOL-Library.List_Lexorder"
    "HOL-Library.Product_Lexorder"
    "HOL-Library.Code_Target_Nat"
begin

text \<open>
  A model of \<open>remove_nvmp.py\<close>, the remover of NVMP artifacts for Fallout New Vegas:
  the matcher (\<open>pat_match\<close> with its regular expressions), the locator
  (\<open>build_roots\<close>), the scanner (\<open>walk_find_matches\<close>, \<open>collapse_covered_paths\<close>), the
  remover (\<open>remove_path\<close>), the text editor (\<open>strip_nvmp_lines_from_text_file\<close>) and the
  part of \<open>main\<close> that calls the editor.  Pure functions are HOL functions; functions
  that touch the file system take a world and return a result that holds the world
  they leave; an exception is a value of that result.
\<close>

section \<open>Text: Python strings as lists of code points\<close>

text \<open>
  A Python \<open>str\<close> is the list of its code points, each a natural number.  \<open>str_of\<close> turns
  a literal of this theory into such a list.
\<close>

type_synonym str = "nat list"

definition str_of :: "string \<Rightarrow> str" where
  "str_of s = map of_char s"

text \<open>
  What the script asks of a character depends on the tables of the Unicode database,
  which belong to the interpreter and not to the repository.  They are a parameter:
  \<open>tolower\<close> is the simple lower-case mapping that the \<open>re\<close> module applies
  (\<open>Py_UNICODE_TOLOWER\<close>), \<open>isalnum\<close> and \<open>isspace\<close> are the classes behind \<open>\w\<close> and \<open>\s\<close>,
  and \<open>lower_str\<close> is \<open>str.lower\<close>, which may lengthen a string and looks at the
  neighbours of a capital sigma.  Up to U+00FF the definitions below give the values
  themselves and never ask the tables; from U+0100 on they ask.
\<close>

record ucd =
  tolower :: "nat \<Rightarrow> nat"
  isalnum :: "nat \<Rightarrow> bool"
  isspace :: "nat \<Rightarrow> bool"
  lower_str :: "str \<Rightarrow> str"

definition latin1_lower :: "nat \<Rightarrow> nat" where
  "latin1_lower c =
     (if (65 \<le> c \<and> c \<le> 90) \<or> (192 \<le> c \<and> c \<le> 214) \<or> (216 \<le> c \<and> c \<le> 222)
      then c + 32 else c)"

text \<open>The lower-case form of one character, as the \<open>re\<close> module computes it.\<close>

definition sre_lower :: "ucd \<Rightarrow> nat \<Rightarrow> nat" where
  "sre_lower u c = (if c < 256 then latin1_lower c else tolower u c)"

text \<open>\<open>s.lower()\<close>.\<close>

definition str_lower :: "ucd \<Rightarrow> str \<Rightarrow> str" where
  "str_lower u s = (if list_all (\<lambda>c. c < 256) s then map latin1_lower s else lower_str u s)"

text \<open>\<open>\w\<close>: alphanumeric characters and the underscore.\<close>

definition is_word :: "ucd \<Rightarrow> nat \<Rightarrow> bool" where
  "is_word u c =
     (if c < 256 then
        ((48 \<le> c \<and> c \<le> 57) \<or> (65 \<le> c \<and> c \<le> 90) \<or> c = 95
         \<or> (97 \<le> c \<and> c \<le> 122) \<or> c = 170 \<or> c = 178 \<or> c = 179
         \<or> c = 181 \<or> c = 185 \<or> c = 186 \<or> (188 \<le> c \<and> c \<le> 190)
         \<or> (192 \<le> c \<and> c \<le> 214) \<or> (216 \<le> c \<and> c \<le> 246) \<or> 248 \<le> c)
      else isalnum u c)"

text \<open>\<open>\s\<close>: whitespace characters.\<close>

definition is_space :: "ucd \<Rightarrow> nat \<Rightarrow> bool" where
  "is_space u c =
     (if c < 256 then
        ((9 \<le> c \<and> c \<le> 13) \<or> (28 \<le> c \<and> c \<le> 32) \<or> c = 133 \<or> c = 160)
      else isspace u c)"

text \<open>Changing the case of ASCII letters only: capital \<open>A\<close> to \<open>Z\<close> become small.\<close>

definition ascii_fold_char :: "nat \<Rightarrow> nat" where
  "ascii_fold_char c = (if 65 \<le> c \<and> c \<le> 90 then c + 32 else c)"


section \<open>The regular expressions of \<open>NVMP_NAME_PATTERNS\<close>\<close>

text \<open>
  The five patterns are sequences of three kinds of atom: a literal ASCII character,
  \<open>\s*\<close>, and \<open>\b\<close>.  Under \<open>re.IGNORECASE\<close> a literal letter matches a character whose
  lower-case form is the letter or one of the extra forms the \<open>re\<close> module lists for it
  (dotless i for \<open>i\<close>, long s for \<open>s\<close>; none for the other letters of these patterns);
  a literal that is not a letter matches itself only.  \<open>match_here\<close> is the backtracking
  matcher anchored at the current position; its third argument is the character
  before that position (\<open>None\<close> at the start of the subject), which \<open>\b\<close> looks at.
  \<open>re_search\<close> is \<open>Pattern.search\<close> seen as a truth value: a match at some position.
\<close>

datatype atom = Lit nat | SpaceStar | Bnd

definition extra_cases :: "nat \<Rightarrow> nat list" where
  "extra_cases x = (if x = 105 then [305] else if x = 115 then [383] else [])"

definition ascii_letter :: "nat \<Rightarrow> bool" where
  "ascii_letter x = ((65 \<le> x \<and> x \<le> 90) \<or> (97 \<le> x \<and> x \<le> 122))"

definition lit_match :: "ucd \<Rightarrow> nat \<Rightarrow> nat \<Rightarrow> bool" where
  "lit_match u x c =
     (if ascii_letter x
      then sre_lower u c \<in> set (ascii_fold_char x # extra_cases (ascii_fold_char x))
      else c = x)"

definition word_before :: "ucd \<Rightarrow> nat option \<Rightarrow> bool" where
  "word_before u prev = (case prev of None \<Rightarrow> False | Some c \<Rightarrow> is_word u c)"

definition word_after :: "ucd \<Rightarrow> str \<Rightarrow> bool" where
  "word_after u s = (case s of [] \<Rightarrow> False | c # _ \<Rightarrow> is_word u c)"

definition at_boundary :: "ucd \<Rightarrow> nat option \<Rightarrow> str \<Rightarrow> bool" where
  "at_boundary u prev s = (word_before u prev \<noteq> word_after u s)"

fun match_here :: "ucd \<Rightarrow> atom list \<Rightarrow> nat option \<Rightarrow> str \<Rightarrow> bool" where
  "match_here u [] prev s = True"
| "match_here u (Lit x # as) prev [] = False"
| "match_here u (Lit x # as) prev (c # cs) = (lit_match u x c \<and> match_here u as (Some c) cs)"
| "match_here u (Bnd # as) prev s = (at_boundary u prev s \<and> match_here u as prev s)"
| "match_here u (SpaceStar # as) prev [] = match_here u as prev []"
| "match_here u (SpaceStar # as) prev (c # cs) =
     ((is_space u c \<and> match_here u (SpaceStar # as) (Some c) cs) \<or> match_here u as prev (c # cs))"

fun search_from :: "ucd \<Rightarrow> atom list \<Rightarrow> nat option \<Rightarrow> str \<Rightarrow> bool" where
  "search_from u as prev [] = match_here u as prev []"
| "search_from u as prev (c # cs) = (match_here u as prev (c # cs) \<or> search_from u as (Some c) cs)"

definition re_search :: "ucd \<Rightarrow> atom list \<Rightarrow> str \<Rightarrow> bool" where
  "re_search u as s = search_from u as None s"

definition lits :: "string \<Rightarrow> atom list" where
  "lits s = map Lit (str_of s)"

definition NVMP_NAME_PATTERNS :: "atom list list" where
  "NVMP_NAME_PATTERNS =
     [ [Bnd] @ lits ''nvmp'' @ [Bnd],
       lits ''nvmp_'',
       lits ''new'' @ [SpaceStar] @ lits ''vegas'' @ [SpaceStar] @ lits ''mp'',
       lits ''newvegasmp'',
       lits ''new'' @ [SpaceStar] @ lits ''vegas'' @ [SpaceStar] @ lits ''multiplayer'' ]"

definition NVMP_KNOWN_FILENAMES :: "str list" where
  "NVMP_KNOWN_FILENAMES =
     map str_of [ ''nvmp_launcher.exe'', ''nvmp_start.exe'', ''nvmp_storyserver.exe'',
               ''nvmp.log'', ''nvmp_launcher_last_error.log'' ]"

text \<open>\<open>any(p.search(name) for p in NVMP_NAME_PATTERNS)\<close>.\<close>

definition any_pattern :: "ucd \<Rightarrow> str \<Rightarrow> bool" where
  "any_pattern u name = list_ex (\<lambda>p. re_search u p name) NVMP_NAME_PATTERNS"

definition pat_match :: "ucd \<Rightarrow> str \<Rightarrow> bool" where
  "pat_match u name =
     (if str_lower u name \<in> set NVMP_KNOWN_FILENAMES then True else any_pattern u name)"

section \<open>Paths\<close>

text \<open>
  A \<open>pathlib\<close> path is its drive, its root and the list of its name components
  (\<open>PurePath.drive\<close>, \<open>PurePath.root\<close>, and \<open>PurePath.parts\<close> without the anchor).
  A relative path has an empty drive and an empty root; the path \<open>.\<close> has no names
  either.  The two flavours differ in the separator and in the comparison of paths:
  a Windows path is compared and hashed by its lower-cased parts.
\<close>

record path =
  drive :: str
  root :: str
  names :: "str list"

datatype flavour = Posix | Windows

definition anchor :: "path \<Rightarrow> str" where
  "anchor p = drive p @ root p"

definition parts :: "path \<Rightarrow> str list" where
  "parts p = (if anchor p = [] then [] else [anchor p]) @ names p"

definition sep :: "flavour \<Rightarrow> str" where
  "sep fl = (case fl of Posix \<Rightarrow> str_of ''/'' | Windows \<Rightarrow> [92])"

fun join_with :: "str \<Rightarrow> str list \<Rightarrow> str" where
  "join_with s [] = []"
| "join_with s [x] = x"
| "join_with s (x # y # ys) = x @ s @ join_with s (y # ys)"

text \<open>\<open>str(p)\<close>.\<close>

definition path_str :: "flavour \<Rightarrow> path \<Rightarrow> str" where
  "path_str fl p =
     (if anchor p = [] \<and> names p = [] then str_of ''.''
      else anchor p @ join_with (sep fl) (names p))"

text \<open>The case folding of a flavour, and what \<open>__eq__\<close> and \<open>__hash__\<close> of a path compare.\<close>

definition normcase :: "ucd \<Rightarrow> flavour \<Rightarrow> str \<Rightarrow> str" where
  "normcase u fl s = (case fl of Posix \<Rightarrow> s | Windows \<Rightarrow> str_lower u s)"

definition path_key :: "ucd \<Rightarrow> flavour \<Rightarrow> path \<Rightarrow> str list" where
  "path_key u fl p = map (normcase u fl) (parts p)"

text \<open>\<open>p.parents\<close>: the nearest ancestor first, down to the anchor (or \<open>.\<close>).\<close>

definition parents :: "path \<Rightarrow> path list" where
  "parents p = map (\<lambda>k. p\<lparr>names := take k (names p)\<rparr>) (rev [0..<length (names p)])"

text \<open>\<open>p.parent\<close>, \<open>p.name\<close> and \<open>p / n\<close> for a single name component \<open>n\<close>.\<close>

definition parent :: "path \<Rightarrow> path" where
  "parent p = p\<lparr>names := butlast (names p)\<rparr>"

definition name :: "path \<Rightarrow> str" where
  "name p = (if names p = [] then [] else last (names p))"

definition child :: "path \<Rightarrow> str \<Rightarrow> path" where
  "child p n = p\<lparr>names := names p @ [n]\<rparr>"

section \<open>Scanner: collapsing covered paths\<close>

definition covered :: "ucd \<Rightarrow> flavour \<Rightarrow> str list set \<Rightarrow> path \<Rightarrow> bool" where
  "covered u fl path_set p = list_ex (\<lambda>parent. path_key u fl parent \<in> path_set) (parents p)"

definition depth_key :: "ucd \<Rightarrow> flavour \<Rightarrow> path \<Rightarrow> nat \<times> str" where
  "depth_key u fl x = (length (parts x), str_lower u (path_str fl x))"

definition collapse_covered_paths :: "ucd \<Rightarrow> flavour \<Rightarrow> path list \<Rightarrow> path list" where
  "collapse_covered_paths u fl paths =
     (let path_set = set (map (path_key u fl) paths)
      in filter (\<lambda>p. \<not> covered u fl path_set p) (sort_key (depth_key u fl) paths))"

text \<open>\<open>d\<close> is an ancestor of \<open>p\<close>: one of \<open>p.parents\<close> equals \<open>d\<close>.\<close>

definition is_ancestor :: "ucd \<Rightarrow> flavour \<Rightarrow> path \<Rightarrow> path \<Rightarrow> bool" where
  "is_ancestor u fl d p = list_ex (\<lambda>parent. path_key u fl parent = path_key u fl d) (parents p)"

section \<open>The operating system\<close>

text \<open>
  An exception raised by the operating system or the standard library is a value:
  \<open>PermissionError\<close> with its message, or any other exception with the name of its
  class and its message (\<open>type(e).__name__\<close> and \<open>str(e)\<close>).  Messages are shortened:
  they do not repeat the file name.  All of them are instances of \<open>Exception\<close>; what
  is not (\<open>KeyboardInterrupt\<close>, \<open>SystemExit\<close>) is outside the model.
\<close>

datatype exn = PermissionError str | OtherException str str

text \<open>
  The file store maps a path to what is there: a regular file with its text, a
  directory, or a symbolic link to a directory.  The text of a file is what decoding
  its bytes as UTF-8 gives, before any translation of line ends; copying a file copies
  this text.  Other symbolic links are outside the model, and so is the folding of
  case that a file system may apply to names: the store is keyed by the path itself.
\<close>

datatype node = File str | Dir | DirLink

datatype op =
    OpStat path | OpLstat path | OpRead path | OpWrite path | OpMkdir path
  | OpCopy path path | OpMove path path | OpUnlink path | OpRmtree path

text \<open>
  The world a run sees.  \<open>unicode\<close> are the tables of the interpreter.  \<open>fault\<close> says
  which system calls fail for reasons the store does not show (permissions, locks, a
  full disk, a name that is too long) and with which exception.  \<open>path_of\<close> is the
  constructor \<open>Path(s)\<close> of a string, \<open>resolve\<close> is \<open>Path.resolve\<close> (which may raise), and
  \<open>os_walk\<close> gives for a root the finite list of triples
  \<open>(dirpath, dirnames, filenames)\<close> that \<open>os.walk\<close> yields, the directory path already
  as a path.
\<close>

record world =
  unicode :: ucd
  flavour_of :: flavour
  environ :: "str \<Rightarrow> str option"
  path_of :: "str \<Rightarrow> path"
  nodes :: "path \<Rightarrow> node option"
  fault :: "op \<Rightarrow> exn option"
  resolve :: "path \<Rightarrow> exn + path"
  os_walk :: "path \<Rightarrow> (path \<times> str list \<times> str list) list"

text \<open>The outcome of an operation that may raise: its value or the exception, and the world left behind.\<close>

datatype 'a result = Ok 'a world | Err exn world

text \<open>What the store holds at a path.\<close>

definition present :: "world \<Rightarrow> path \<Rightarrow> bool" where
  "present w p = (nodes w p \<noteq> None)"

definition file_at :: "world \<Rightarrow> path \<Rightarrow> bool" where
  "file_at w p = (case nodes w p of Some (File _) \<Rightarrow> True | _ \<Rightarrow> False)"

definition dir_at :: "world \<Rightarrow> path \<Rightarrow> bool" where
  "dir_at w p = (case nodes w p of Some Dir \<Rightarrow> True | Some DirLink \<Rightarrow> True | _ \<Rightarrow> False)"

definition link_at :: "world \<Rightarrow> path \<Rightarrow> bool" where
  "link_at w p = (case nodes w p of Some DirLink \<Rightarrow> True | _ \<Rightarrow> False)"

text \<open>
  The tests of \<open>pathlib\<close> call \<open>os.stat\<close> (\<open>is_symlink\<close>: \<open>os.lstat\<close>).  An error that says
  the path is not there (\<open>ENOENT\<close>, \<open>ENOTDIR\<close>, \<open>EBADF\<close>, \<open>ELOOP\<close>) makes the test answer
  no: in the model such a path is absent from the store.  Every other \<open>OSError\<close> of the
  call (\<open>EACCES\<close>, \<open>ENAMETOOLONG\<close>) is raised again by the test: a fault of the call.
\<close>

definition exists :: "world \<Rightarrow> path \<Rightarrow> exn + bool" where
  "exists w p = (case fault w (OpStat p) of Some e \<Rightarrow> Inl e | None \<Rightarrow> Inr (present w p))"

definition is_file :: "world \<Rightarrow> path \<Rightarrow> exn + bool" where
  "is_file w p = (case fault w (OpStat p) of Some e \<Rightarrow> Inl e | None \<Rightarrow> Inr (file_at w p))"

definition is_dir :: "world \<Rightarrow> path \<Rightarrow> exn + bool" where
  "is_dir w p = (case fault w (OpStat p) of Some e \<Rightarrow> Inl e | None \<Rightarrow> Inr (dir_at w p))"

definition is_symlink :: "world \<Rightarrow> path \<Rightarrow> exn + bool" where
  "is_symlink w p = (case fault w (OpLstat p) of Some e \<Rightarrow> Inl e | None \<Rightarrow> Inr (link_at w p))"

text \<open>\<open>os.path.isdir\<close> and \<open>os.path.exists\<close> answer no on every error.\<close>

definition os_path_isdir :: "world \<Rightarrow> path \<Rightarrow> bool" where
  "os_path_isdir w p = (case is_dir w p of Inl e \<Rightarrow> False | Inr b \<Rightarrow> b)"

definition os_path_exists :: "world \<Rightarrow> path \<Rightarrow> bool" where
  "os_path_exists w p = (case exists w p of Inl e \<Rightarrow> False | Inr b \<Rightarrow> b)"

text \<open>\<open>str(p).lower()\<close>, the key under which the script remembers a path it has seen.\<close>

definition seen_key :: "world \<Rightarrow> path \<Rightarrow> str" where
  "seen_key w p = str_lower (unicode w) (path_str (flavour_of w) p)"

section \<open>Locator: the roots to scan\<close>

text \<open>\<open>p / a / b / ...\<close> for single name components.\<close>

definition descend :: "path \<Rightarrow> string list \<Rightarrow> path" where
  "descend p ns = foldl child p (map str_of ns)"

text \<open>\<open>os.environ.get(k)\<close> where the script goes on only if the value is truthy.\<close>

definition env_truthy :: "world \<Rightarrow> string \<Rightarrow> str option" where
  "env_truthy w k =
     (case environ w (str_of k) of None \<Rightarrow> None | Some v \<Rightarrow> if v = [] then None else Some v)"

text \<open>\<open>[d for d in dirs if d.exists()]\<close>: the first test that raises ends the comprehension.\<close>

fun keep_if_exists :: "world \<Rightarrow> path list \<Rightarrow> exn + path list" where
  "keep_if_exists w [] = Inr []"
| "keep_if_exists w (d # ds) =
     (case exists w d of
        Inl e \<Rightarrow> Inl e
      | Inr b \<Rightarrow>
          (case keep_if_exists w ds of
             Inl e \<Rightarrow> Inl e
           | Inr rest \<Rightarrow> Inr (if b then d # rest else rest)))"

definition user_dirs :: "world \<Rightarrow> exn + path list" where
  "user_dirs w =
     (let dirs1 = (case env_truthy w ''USERPROFILE'' of None \<Rightarrow> []
                   | Some up \<Rightarrow>
                       [ descend (path_of w up) [''Documents'', ''My Games'', ''FalloutNV''],
                         descend (path_of w up) [''Documents'', ''My Games'', ''Fallout New Vegas''] ]);
          dirs2 = dirs1 @ (case env_truthy w ''LOCALAPPDATA'' of None \<Rightarrow> []
                   | Some local \<Rightarrow>
                       [ descend (path_of w local) [''FalloutNV''],
                         descend (path_of w local) [''Fallout New Vegas''],
                         descend (path_of w local) [''Bethesda Softworks'', ''FalloutNV''] ]);
          dirs3 = dirs2 @ (case env_truthy w ''APPDATA'' of None \<Rightarrow> []
                   | Some roam \<Rightarrow>
                       [ descend (path_of w roam) [''Vortex'', ''falloutnv''],
                         descend (path_of w roam) [''Vortex'', ''fallout new vegas''],
                         descend (path_of w roam) [''Vortex''] ])
      in keep_if_exists w dirs3)"

definition likely_vortex_mod_roots :: "world \<Rightarrow> exn + path list" where
  "likely_vortex_mod_roots w =
     (case env_truthy w ''APPDATA'' of None \<Rightarrow> Inr []
      | Some roam \<Rightarrow>
          keep_if_exists w
            (map (\<lambda>g. descend (path_of w roam) [''Vortex'', g, ''mods''])
               [''falloutnv'', ''fallout new vegas'']))"

text \<open>One round of the loop of \<open>likely_mo2_roots_near_game\<close>.\<close>

definition mo2_near :: "world \<Rightarrow> path \<Rightarrow> exn + path list" where
  "mo2_near w par =
     (case exists w par of
        Inl e \<Rightarrow> Inl e
      | Inr there \<Rightarrow>
          if \<not> there then Inr []
          else (case exists w (child par (str_of ''Mod Organizer 2'')) of
                  Inl e \<Rightarrow> Inl e
                | Inr b \<Rightarrow> Inr (if b then [child par (str_of ''Mod Organizer 2'')] else [])))"

definition likely_mo2_roots_near_game :: "world \<Rightarrow> path option \<Rightarrow> exn + path list" where
  "likely_mo2_roots_near_game w game_dir =
     (case game_dir of None \<Rightarrow> Inr []
      | Some g \<Rightarrow>
          (case mo2_near w (parent g) of
             Inl e \<Rightarrow> Inl e
           | Inr near \<Rightarrow>
               (case mo2_near w (parent (parent g)) of
                  Inl e \<Rightarrow> Inl e
                | Inr far \<Rightarrow> Inr (near @ far))))"

definition mo2_subdirs :: "path \<Rightarrow> path list" where
  "mo2_subdirs mo2 =
     [mo2, child mo2 (str_of ''mods''), child mo2 (str_of ''overwrite''),
      child mo2 (str_of ''profiles'')]"

definition game_subdirs :: "path option \<Rightarrow> path list" where
  "game_subdirs game_dir =
     (case game_dir of None \<Rightarrow> []
      | Some g \<Rightarrow> [g, child g (str_of ''Data''), descend g [''Data'', ''nvse'', ''plugins'']])"

text \<open>
  The candidate list of \<open>build_roots\<close>, before the loop that keeps the existing ones
  once: the game directory and its subdirectories, the user directories, the Vortex
  roots and the MO2 roots, computed in this order.
\<close>

definition root_candidates ::
    "world \<Rightarrow> path option \<Rightarrow> path option \<Rightarrow> path option \<Rightarrow> exn + path list" where
  "root_candidates w game_dir mo2_dir vortex_dir =
     (case user_dirs w of
        Inl e \<Rightarrow> Inl e
      | Inr users \<Rightarrow>
          (case (case vortex_dir of Some v \<Rightarrow> Inr [v] | None \<Rightarrow> likely_vortex_mod_roots w) of
             Inl e \<Rightarrow> Inl e
           | Inr vortex \<Rightarrow>
               (case (case mo2_dir of Some m \<Rightarrow> Inr [m]
                      | None \<Rightarrow> likely_mo2_roots_near_game w game_dir) of
                  Inl e \<Rightarrow> Inl e
                | Inr mo2s \<Rightarrow>
                    Inr (game_subdirs game_dir @ users @ vortex @ concat (map mo2_subdirs mo2s)))))"

text \<open>The directories the caller names: they are candidates whatever the environment says.\<close>

definition given_candidates :: "path option \<Rightarrow> path option \<Rightarrow> path option \<Rightarrow> path list" where
  "given_candidates game_dir mo2_dir vortex_dir =
     game_subdirs game_dir
     @ (case vortex_dir of Some v \<Rightarrow> [v] | None \<Rightarrow> [])
     @ (case mo2_dir of Some m \<Rightarrow> mo2_subdirs m | None \<Rightarrow> [])"

text \<open>\<open>try: rr = r.resolve() except Exception: rr = r\<close>.\<close>

definition resolved :: "world \<Rightarrow> path \<Rightarrow> path" where
  "resolved w r = (case resolve w r of Inl e \<Rightarrow> r | Inr x \<Rightarrow> x)"

text \<open>
  The loop \<open>for r in roots\<close> with its accumulators \<open>out\<close> and \<open>seen\<close>.  The test
  \<open>rr.exists()\<close> stands outside the \<open>try\<close>: when it raises, \<open>build_roots\<close> raises.
\<close>

fun keep_existing :: "world \<Rightarrow> path list \<Rightarrow> path list \<Rightarrow> str set \<Rightarrow> exn + path list" where
  "keep_existing w [] out seen = Inr out"
| "keep_existing w (r # rs) out seen =
     (let rr = resolved w r;
          key = seen_key w rr
      in if key \<in> seen then keep_existing w rs out seen
         else (case exists w rr of
                 Inl e \<Rightarrow> Inl e
               | Inr b \<Rightarrow>
                   if b then keep_existing w rs (out @ [rr]) (insert key seen)
                   else keep_existing w rs out seen))"

definition build_roots ::
    "world \<Rightarrow> path option \<Rightarrow> path option \<Rightarrow> path option \<Rightarrow> exn + path list" where
  "build_roots w game_dir mo2_dir vortex_dir =
     (case root_candidates w game_dir mo2_dir vortex_dir of
        Inl e \<Rightarrow> Inl e
      | Inr roots \<Rightarrow> keep_existing w roots [] {})"

section \<open>Scanner: walking the roots\<close>

text \<open>
  The three nested loops of \<open>walk_find_matches\<close> thread the list \<open>matches\<close> and the set
  \<open>seen\<close>.  A loop either runs to its end (\<open>Go\<close>), or leaves the function through
  \<open>return matches\<close> (\<open>Stop\<close>), or is left by an exception of \<open>resolve\<close> (\<open>Fail\<close>).
\<close>

datatype scan = Go "path list" "str set" | Stop "path list" | Fail exn

definition add :: "world \<Rightarrow> path \<Rightarrow> path list \<Rightarrow> str set \<Rightarrow> path list \<times> str set" where
  "add w p matches seen =
     (let key = seen_key w p
      in if key \<notin> seen then (matches @ [p], insert key seen) else (matches, seen))"

text \<open>\<open>for d in names: if pat_match(d): add(...); if len(matches) >= max_matches: return matches\<close>.\<close>

fun scan_names :: "world \<Rightarrow> int \<Rightarrow> path \<Rightarrow> str list \<Rightarrow> path list \<Rightarrow> str set \<Rightarrow> scan" where
  "scan_names w max_matches dp [] matches seen = Go matches seen"
| "scan_names w max_matches dp (d # ds) matches seen =
     (if pat_match (unicode w) d then
        (case resolve w (child dp d) of
           Inl e \<Rightarrow> Fail e
         | Inr p \<Rightarrow>
             (case add w p matches seen of
                (matches', seen') \<Rightarrow>
                  if int (length matches') \<ge> max_matches then Stop matches'
                  else scan_names w max_matches dp ds matches' seen'))
      else scan_names w max_matches dp ds matches seen)"

fun scan_walk :: "world \<Rightarrow> int \<Rightarrow> (path \<times> str list \<times> str list) list
    \<Rightarrow> path list \<Rightarrow> str set \<Rightarrow> scan" where
  "scan_walk w max_matches [] matches seen = Go matches seen"
| "scan_walk w max_matches ((dp, dirnames, filenames) # rest) matches seen =
     (case scan_names w max_matches dp dirnames matches seen of
        Go matches1 seen1 \<Rightarrow>
          (case scan_names w max_matches dp filenames matches1 seen1 of
             Go matches2 seen2 \<Rightarrow> scan_walk w max_matches rest matches2 seen2
           | Stop ms \<Rightarrow> Stop ms
           | Fail e \<Rightarrow> Fail e)
      | Stop ms \<Rightarrow> Stop ms
      | Fail e \<Rightarrow> Fail e)"

fun scan_roots :: "world \<Rightarrow> int \<Rightarrow> path list \<Rightarrow> path list \<Rightarrow> str set \<Rightarrow> scan" where
  "scan_roots w max_matches [] matches seen = Go matches seen"
| "scan_roots w max_matches (r # roots) matches seen =
     (case scan_walk w max_matches (os_walk w r) matches seen of
        Go matches1 seen1 \<Rightarrow> scan_roots w max_matches roots matches1 seen1
      | Stop ms \<Rightarrow> Stop ms
      | Fail e \<Rightarrow> Fail e)"

definition walk_find_matches :: "world \<Rightarrow> path list \<Rightarrow> int \<Rightarrow> exn + path list" where
  "walk_find_matches w roots max_matches =
     (case scan_roots w max_matches roots [] {} of
        Go matches seen \<Rightarrow> Inr (sort_key (seen_key w) matches)
      | Stop matches \<Rightarrow> Inr matches
      | Fail e \<Rightarrow> Inl e)"

section \<open>Reading and writing text\<close>

definition LF :: nat where
  "LF = 10"

definition CR :: nat where
  "CR = 13"

text \<open>Reading in text mode with universal newlines: \<open>\r\n\<close> and a lone \<open>\r\<close> become \<open>\n\<close>.\<close>

fun nl_in :: "str \<Rightarrow> str" where
  "nl_in [] = []"
| "nl_in [c] = [if c = CR then LF else c]"
| "nl_in (c # d # s) =
     (if c = CR then (if d = LF then LF # nl_in s else LF # nl_in (d # s))
      else c # nl_in (d # s))"

text \<open>Writing in text mode: \<open>\n\<close> becomes \<open>os.linesep\<close>.\<close>

definition linesep :: "flavour \<Rightarrow> str" where
  "linesep fl = (case fl of Posix \<Rightarrow> [LF] | Windows \<Rightarrow> [CR, LF])"

definition nl_out :: "flavour \<Rightarrow> str \<Rightarrow> str" where
  "nl_out fl s = concat (map (\<lambda>c. if c = LF then linesep fl else [c]) s)"

text \<open>The line boundaries of \<open>str.splitlines\<close>.\<close>

definition is_linebreak :: "nat \<Rightarrow> bool" where
  "is_linebreak c =
     ((10 \<le> c \<and> c \<le> 13) \<or> (28 \<le> c \<and> c \<le> 30) \<or> c = 133 \<or> c = 8232 \<or> c = 8233)"

text \<open>\<open>s.splitlines(True)\<close>: the lines with their ends; \<open>cur\<close> is the line being read.\<close>

fun splitlines_acc :: "str \<Rightarrow> str \<Rightarrow> str list" where
  "splitlines_acc cur [] = (if cur = [] then [] else [cur])"
| "splitlines_acc cur [c] = [cur @ [c]]"
| "splitlines_acc cur (c # d # s) =
     (if c = CR \<and> d = LF then (cur @ [c, d]) # splitlines_acc [] s
      else if is_linebreak c then (cur @ [c]) # splitlines_acc [] (d # s)
      else splitlines_acc (cur @ [c]) (d # s))"

definition splitlines_keep :: "str \<Rightarrow> str list" where
  "splitlines_keep s = splitlines_acc [] s"

text \<open>\<open>line.rstrip("\n")\<close>.\<close>

definition rstrip_nl :: "str \<Rightarrow> str" where
  "rstrip_nl s = rev (dropWhile (\<lambda>c. c = LF) (rev s))"

text \<open>\<open>str(n)\<close> for a length.\<close>

fun str_nat :: "nat \<Rightarrow> str" where
  "str_nat n = (if n < 10 then [48 + n] else str_nat (n div 10) @ [48 + n mod 10])"

declare str_nat.simps [simp del]

section \<open>System calls on the store\<close>

definition not_found :: exn where
  "not_found = OtherException (str_of ''FileNotFoundError'') (str_of ''[Errno 2] No such file or directory'')"

definition not_a_directory :: exn where
  "not_a_directory = OtherException (str_of ''NotADirectoryError'') (str_of ''[Errno 20] Not a directory'')"

definition file_exists :: exn where
  "file_exists = OtherException (str_of ''FileExistsError'') (str_of ''[Errno 17] File exists'')"

text \<open>Opening or unlinking a directory as if it were a file.\<close>

definition is_a_directory :: "flavour \<Rightarrow> exn" where
  "is_a_directory fl =
     (case fl of Posix \<Rightarrow> OtherException (str_of ''IsADirectoryError'') (str_of ''[Errno 21] Is a directory'')
      | Windows \<Rightarrow> PermissionError (str_of ''[Errno 13] Permission denied''))"

definition is_not_found :: "exn \<Rightarrow> bool" where
  "is_not_found e =
     (case e of OtherException n _ \<Rightarrow> n = str_of ''FileNotFoundError'' | _ \<Rightarrow> False)"

definition put :: "world \<Rightarrow> path \<Rightarrow> node \<Rightarrow> world" where
  "put w p n = w\<lparr>nodes := (nodes w)(p \<mapsto> n)\<rparr>"

text \<open>\<open>path.read_text(encoding="utf-8", errors="ignore")\<close>.\<close>

definition read_text :: "world \<Rightarrow> path \<Rightarrow> str result" where
  "read_text w p =
     (case fault w (OpRead p) of
        Some e \<Rightarrow> Err e w
      | None \<Rightarrow>
          (case nodes w p of
             Some (File c) \<Rightarrow> Ok (nl_in c) w
           | Some _ \<Rightarrow> Err (is_a_directory (flavour_of w)) w
           | None \<Rightarrow> Err not_found w))"

text \<open>\<open>path.write_text(s, encoding="utf-8")\<close>; its value is the number of characters.\<close>

definition write_text :: "world \<Rightarrow> path \<Rightarrow> str \<Rightarrow> nat result" where
  "write_text w p s =
     (case fault w (OpWrite p) of
        Some e \<Rightarrow> Err e w
      | None \<Rightarrow>
          if dir_at w p then Err (is_a_directory (flavour_of w)) w
          else if dir_at w (parent p)
          then Ok (length s) (put w p (File (nl_out (flavour_of w) s)))
          else Err not_found w)"

text \<open>\<open>os.mkdir(p)\<close>.\<close>

definition os_mkdir :: "world \<Rightarrow> path \<Rightarrow> unit result" where
  "os_mkdir w p =
     (case fault w (OpMkdir p) of
        Some e \<Rightarrow> Err e w
      | None \<Rightarrow>
          if present w p then Err file_exists w
          else (case nodes w (parent p) of
                  None \<Rightarrow> Err not_found w
                | Some (File _) \<Rightarrow> Err not_a_directory w
                | Some _ \<Rightarrow> Ok () (put w p Dir)))"

text \<open>
  The handler \<open>except OSError: if not exist_ok or not self.is_dir(): raise\<close> of
  \<open>Path.mkdir\<close>, with \<open>exist_ok=True\<close>: the error \<open>e\<close> of \<open>os.mkdir\<close> is dropped when the
  path is a directory; the test may raise an error of its own.
\<close>

definition unless_dir :: "world \<Rightarrow> path \<Rightarrow> exn \<Rightarrow> unit result" where
  "unless_dir w p e =
     (case is_dir w p of
        Inl e2 \<Rightarrow> Err e2 w
      | Inr b \<Rightarrow> if b then Ok () w else Err e w)"

text \<open>\<open>Path.mkdir(parents=False, exist_ok=True)\<close>.\<close>

definition mkdir_exist_ok :: "world \<Rightarrow> path \<Rightarrow> unit result" where
  "mkdir_exist_ok w p =
     (case os_mkdir w p of
        Ok u w1 \<Rightarrow> Ok u w1
      | Err e w1 \<Rightarrow> if is_not_found e then Err e w1 else unless_dir w1 p e)"

text \<open>
  \<open>ensure_dir(p)\<close>, that is \<open>p.mkdir(parents=True, exist_ok=True)\<close>: when the parent is
  missing, make the parent first and try again.
\<close>

function ensure_dir :: "world \<Rightarrow> path \<Rightarrow> unit result" where
  "ensure_dir w p =
     (case os_mkdir w p of
        Ok u w1 \<Rightarrow> Ok u w1
      | Err e w1 \<Rightarrow>
          if is_not_found e then
            (if names p = [] then Err e w1
             else (case ensure_dir w1 (parent p) of
                     Err e2 w2 \<Rightarrow> Err e2 w2
                   | Ok u w2 \<Rightarrow> mkdir_exist_ok w2 p))
          else unless_dir w1 p e)"
  by pat_completeness auto
termination
  by (relation "measure (\<lambda>(w, p). length (names p))") (auto simp: parent_def)

declare ensure_dir.simps [simp del]

text \<open>\<open>shutil.copy2(src, dst)\<close>: into \<open>dst\<close> when \<open>dst\<close> is a directory.\<close>

definition copy2 :: "world \<Rightarrow> path \<Rightarrow> path \<Rightarrow> path result" where
  "copy2 w src dst =
     (case fault w (OpCopy src dst) of
        Some e \<Rightarrow> Err e w
      | None \<Rightarrow>
          (let dst' = (if os_path_isdir w dst then child dst (name src) else dst)
           in case nodes w src of
                None \<Rightarrow> Err not_found w
              | Some (File c) \<Rightarrow>
                  if dst' = src then Err (OtherException (str_of ''SameFileError'') (str_of ''are the same file'')) w
                  else if dir_at w dst' then Err (is_a_directory (flavour_of w)) w
                  else if dir_at w (parent dst') then Ok dst' (put w dst' (File c))
                  else Err not_found w
              | Some _ \<Rightarrow> Err (is_a_directory (flavour_of w)) w))"

text \<open>\<open>p.unlink(missing_ok=True)\<close>.\<close>

definition unlink :: "world \<Rightarrow> path \<Rightarrow> unit result" where
  "unlink w p =
     (case fault w (OpUnlink p) of
        Some e \<Rightarrow> Err e w
      | None \<Rightarrow>
          (case nodes w p of
             None \<Rightarrow> Ok () w
           | Some Dir \<Rightarrow> Err (is_a_directory (flavour_of w)) w
           | Some _ \<Rightarrow> Ok () (w\<lparr>nodes := (nodes w)(p := None)\<rparr>)))"

text \<open>\<open>q\<close> is \<open>p\<close> or lies below \<open>p\<close>.\<close>

definition under :: "path \<Rightarrow> path \<Rightarrow> bool" where
  "under p q =
     (drive q = drive p \<and> root q = root p \<and> take (length (names p)) (names q) = names p)"

text \<open>\<open>shutil.rmtree(p)\<close>.\<close>

definition rmtree :: "world \<Rightarrow> path \<Rightarrow> unit result" where
  "rmtree w p =
     (case fault w (OpRmtree p) of
        Some e \<Rightarrow> Err e w
      | None \<Rightarrow>
          (case nodes w p of
             None \<Rightarrow> Err not_found w
           | Some (File _) \<Rightarrow> Err not_a_directory w
           | Some DirLink \<Rightarrow>
               Err (OtherException (str_of ''OSError'') (str_of ''Cannot call rmtree on a symbolic link'')) w
           | Some Dir \<Rightarrow>
               Ok () (w\<lparr>nodes := (\<lambda>q. if under p q then None else nodes w q)\<rparr>)))"

text \<open>
  Moving the tree at \<open>src\<close> to \<open>real_dst\<close>: \<open>os.rename\<close>, or the copy and delete that
  \<open>shutil.move\<close> falls back to, with the same outcome on the store.
\<close>

definition relocate :: "world \<Rightarrow> path \<Rightarrow> path \<Rightarrow> path result" where
  "relocate w src real_dst =
     (case nodes w src of
        None \<Rightarrow> Err not_found w
      | Some n \<Rightarrow>
          if real_dst = src then Ok real_dst w
          else if under src real_dst then
            (if file_at w src then Err not_a_directory w
             else Err (OtherException (str_of ''Error'') (str_of ''Cannot move a directory into itself'')) w)
          else if \<not> dir_at w (parent real_dst) then Err not_found w
          else if present w real_dst \<and> \<not> file_at w src then Err file_exists w
          else Ok real_dst
                 (w\<lparr>nodes := (\<lambda>q. if under src q then None
                                    else if under real_dst q
                                    then nodes w (src\<lparr>names := names src
                                                    @ drop (length (names real_dst)) (names q)\<rparr>)
                                    else nodes w q)\<rparr>))"

text \<open>\<open>shutil.move(src, dst)\<close>.\<close>

definition move :: "world \<Rightarrow> path \<Rightarrow> path \<Rightarrow> path result" where
  "move w src dst =
     (case fault w (OpMove src dst) of
        Some e \<Rightarrow> Err e w
      | None \<Rightarrow>
          if os_path_isdir w dst then
            (if src = dst then Ok dst w
             else if os_path_exists w (child dst (name src)) then
               Err (OtherException (str_of ''Error'') (str_of ''Destination path already exists'')) w
             else relocate w src (child dst (name src)))
          else relocate w src dst)"

section \<open>Remover\<close>

text \<open>\<open>a / b\<close> for two paths.\<close>

definition joinpath :: "ucd \<Rightarrow> flavour \<Rightarrow> path \<Rightarrow> path \<Rightarrow> path" where
  "joinpath u fl a b =
     (if root b \<noteq> [] then
        (if drive b = [] \<and> drive a \<noteq> [] then \<lparr>drive = drive a, root = root b, names = names b\<rparr>
         else b)
      else if drive b \<noteq> [] then
        (if drive b = drive a \<or> normcase u fl (drive b) = normcase u fl (drive a)
         then a\<lparr>names := names a @ names b\<rparr> else b)
      else a\<lparr>names := names a @ names b\<rparr>)"

definition safe_rel_for_backup :: "world \<Rightarrow> path \<Rightarrow> path" where
  "safe_rel_for_backup w p =
     path_of w (filter (\<lambda>c. c \<noteq> 58) (path_str (flavour_of w) p))"

text \<open>\<open>p.is_dir() and not p.is_symlink()\<close>: the second test runs only after a yes.\<close>

definition dir_not_link :: "world \<Rightarrow> path \<Rightarrow> exn + bool" where
  "dir_not_link w p =
     (case is_dir w p of
        Inl e \<Rightarrow> Inl e
      | Inr d \<Rightarrow>
          if \<not> d then Inr False
          else (case is_symlink w p of Inl e \<Rightarrow> Inl e | Inr l \<Rightarrow> Inr (\<not> l)))"

text \<open>The body of the \<open>try\<close> of \<open>remove_path\<close>; its value is the outcome string.\<close>

definition remove_path_try :: "world \<Rightarrow> path \<Rightarrow> path option \<Rightarrow> bool \<Rightarrow> str result" where
  "remove_path_try w p backup_dir permanent_delete =
     (case exists w p of
        Inl e \<Rightarrow> Err e w
      | Inr there \<Rightarrow>
          if \<not> there then Ok (str_of ''SKIP (missing)'') w
          else if permanent_delete then
            (case dir_not_link w p of
               Inl e \<Rightarrow> Err e w
             | Inr tree \<Rightarrow>
                 (case (if tree then rmtree w p else unlink w p) of
                    Err e w1 \<Rightarrow> Err e w1
                  | Ok u w1 \<Rightarrow> Ok (str_of ''DELETED'') w1))
          else
            (case backup_dir of
               None \<Rightarrow> Ok (str_of ''ERROR (no backup dir set)'') w
             | Some b \<Rightarrow>
                 (let dst = joinpath (unicode w) (flavour_of w) b (safe_rel_for_backup w p)
                  in case ensure_dir w (parent dst) of
                       Err e w1 \<Rightarrow> Err e w1
                     | Ok u w1 \<Rightarrow>
                         (case move w1 p dst of
                            Err e w2 \<Rightarrow> Err e w2
                          | Ok r w2 \<Rightarrow>
                              Ok (str_of ''MOVED -> '' @ path_str (flavour_of w) dst) w2))))"

text \<open>\<open>remove_path\<close>: the \<open>try\<close> with its two handlers.\<close>

definition remove_path :: "world \<Rightarrow> path \<Rightarrow> path option \<Rightarrow> bool \<Rightarrow> (path \<times> str) result" where
  "remove_path w p backup_dir permanent_delete =
     (case remove_path_try w p backup_dir permanent_delete of
        Ok outcome w1 \<Rightarrow> Ok (p, outcome) w1
      | Err (PermissionError m) w1 \<Rightarrow>
          Ok (p, str_of ''ERROR (permission denied; run as Administrator)'') w1
      | Err (OtherException n m) w1 \<Rightarrow>
          Ok (p, str_of ''ERROR ('' @ n @ str_of '': '' @ m @ str_of '')'') w1)"

section \<open>Text editor\<close>

text \<open>The loop \<open>for line in raw\<close> with its two lists.\<close>

fun split_lines :: "ucd \<Rightarrow> str list \<Rightarrow> str list \<Rightarrow> str list \<Rightarrow> str list \<times> str list" where
  "split_lines u [] kept removed = (kept, removed)"
| "split_lines u (line # raw) kept removed =
     (if pat_match u line then split_lines u raw kept (removed @ [rstrip_nl line])
      else split_lines u raw (kept @ [line]) removed)"

text \<open>The copy of the file into the backup directory, before the edit.\<close>

definition backup_copy :: "world \<Rightarrow> path \<Rightarrow> path \<Rightarrow> path result" where
  "backup_copy w path b =
     (case ensure_dir w b of
        Err e w1 \<Rightarrow> Err e w1
      | Ok u w1 \<Rightarrow> copy2 w1 path (child b (name path @ str_of ''.bak'')))"

text \<open>\<open>not path.exists() or not path.is_file()\<close>: the second test runs only after a yes.\<close>

definition missing_or_no_file :: "world \<Rightarrow> path \<Rightarrow> exn + bool" where
  "missing_or_no_file w path =
     (case exists w path of
        Inl e \<Rightarrow> Inl e
      | Inr there \<Rightarrow>
          if \<not> there then Inr True
          else (case is_file w path of Inl e \<Rightarrow> Inl e | Inr f \<Rightarrow> Inr (\<not> f)))"

text \<open>
  The part of the \<open>try\<close> of \<open>strip_nvmp_lines_from_text_file\<close> after the lines are
  split: nothing to do without a removed line; else the backup, the rewrite and the
  message.
\<close>

definition rewrite :: "world \<Rightarrow> path \<Rightarrow> path option \<Rightarrow> bool \<Rightarrow> str list \<Rightarrow> str list
    \<Rightarrow> str list result" where
  "rewrite w path backup_dir permanent_delete kept removed =
     (if removed = [] then Ok [] w
      else
        (case (if \<not> permanent_delete \<and> backup_dir \<noteq> None
               then (case backup_dir of Some b \<Rightarrow> backup_copy w path b | None \<Rightarrow> Ok path w)
               else if permanent_delete \<and> backup_dir \<noteq> None
               then (case backup_dir of Some b \<Rightarrow> backup_copy w path b | None \<Rightarrow> Ok path w)
               else Ok path w) of
           Err e w2 \<Rightarrow> Err e w2
         | Ok r w2 \<Rightarrow>
             (case write_text w2 path (concat kept) of
                Err e w3 \<Rightarrow> Err e w3
              | Ok n w3 \<Rightarrow>
                  Ok [str_of ''EDITED: '' @ path_str (flavour_of w) path @ str_of '' (removed ''
                      @ str_nat (length removed) @ str_of '' NVMP line(s))''] w3)))"

text \<open>The body of the \<open>try\<close> of \<open>strip_nvmp_lines_from_text_file\<close>.\<close>

definition strip_try :: "world \<Rightarrow> path \<Rightarrow> path option \<Rightarrow> bool \<Rightarrow> str list result" where
  "strip_try w path backup_dir permanent_delete =
     (case missing_or_no_file w path of
        Inl e \<Rightarrow> Err e w
      | Inr skip \<Rightarrow>
          if skip then Ok [] w
          else
            (case read_text w path of
               Err e w1 \<Rightarrow> Err e w1
             | Ok content w1 \<Rightarrow>
                 (case split_lines (unicode w) (splitlines_keep content) [] [] of
                    (kept, removed) \<Rightarrow>
                      rewrite w1 path backup_dir permanent_delete kept removed)))"

definition strip_nvmp_lines_from_text_file ::
    "world \<Rightarrow> path \<Rightarrow> path option \<Rightarrow> bool \<Rightarrow> str list result" where
  "strip_nvmp_lines_from_text_file w path backup_dir permanent_delete =
     (case strip_try w path backup_dir permanent_delete of
        Ok msgs w1 \<Rightarrow> Ok msgs w1
      | Err (PermissionError m) w1 \<Rightarrow>
          Ok [str_of ''ERROR editing '' @ path_str (flavour_of w) path
              @ str_of '': permission denied (run as Administrator)''] w1
      | Err (OtherException n m) w1 \<Rightarrow>
          Ok [str_of ''ERROR editing '' @ path_str (flavour_of w) path @ str_of '': ''
              @ n @ str_of '': '' @ m] w1)"

text \<open>The lines of a file as the editor reads them.\<close>

definition file_lines :: "world \<Rightarrow> path \<Rightarrow> str list" where
  "file_lines w p = (case nodes w p of Some (File c) \<Rightarrow> splitlines_keep (nl_in c) | _ \<Rightarrow> [])"

section \<open>The part of \<open>main\<close> that cleans the text files\<close>

text \<open>
  \<open>main\<close> takes no backup directory in delete mode; otherwise it creates the directory
  that \<open>backup_root\<close> names (here \<open>fresh\<close>: it depends on the clock).  Then it calls the
  editor on every load list and every ini file and collects the messages.
\<close>

fun clean_all :: "world \<Rightarrow> path list \<Rightarrow> path option \<Rightarrow> bool \<Rightarrow> str list result" where
  "clean_all w [] backup_dir delete = Ok [] w"
| "clean_all w (p # ps) backup_dir delete =
     (case strip_nvmp_lines_from_text_file w p backup_dir delete of
        Err e w1 \<Rightarrow> Err e w1
      | Ok msgs w1 \<Rightarrow>
          (case clean_all w1 ps backup_dir delete of
             Err e w2 \<Rightarrow> Err e w2
           | Ok rest w2 \<Rightarrow> Ok (msgs @ rest) w2))"

definition main_clean_text :: "world \<Rightarrow> bool \<Rightarrow> path \<Rightarrow> path list \<Rightarrow> path list \<Rightarrow> str list result" where
  "main_clean_text w delete fresh loadlists inis =
     (if delete then clean_all w (loadlists @ inis) None delete
      else (case ensure_dir w fresh of
              Err e w1 \<Rightarrow> Err e w1
            | Ok u w1 \<Rightarrow> clean_all w1 (loadlists @ inis) (Some fresh) delete))"

section \<open>Notions used in the proofs\<close>

text \<open>The invariant of the scanner's loops: the keys of \<open>matches\<close> differ pairwise and lie in \<open>seen\<close>.\<close>

definition scan_inv :: "world \<Rightarrow> path list \<Rightarrow> str set \<Rightarrow> bool" where
  "scan_inv w ms seen = (distinct (map (seen_key w) ms) \<and> seen_key w ` set ms \<subseteq> seen)"

definition scan_ok :: "world \<Rightarrow> scan \<Rightarrow> bool" where
  "scan_ok w r =
     (case r of Go ms seen \<Rightarrow> scan_inv w ms seen
      | Stop ms \<Rightarrow> distinct (map (seen_key w) ms)
      | Fail e \<Rightarrow> True)"

text \<open>With a cap of at least one, a running scan stays below the cap and a stopped one within it.\<close>

definition scan_within :: "int \<Rightarrow> scan \<Rightarrow> bool" where
  "scan_within mx r =
     (case r of Go ms seen \<Rightarrow> int (length ms) < mx
      | Stop ms \<Rightarrow> int (length ms) \<le> mx
      | Fail e \<Rightarrow> True)"

text \<open>
  The invariant of the loop of \<open>build_roots\<close>: every path kept so far passed the
  existence test, the keys of the kept paths differ pairwise, and \<open>seen\<close> holds exactly
  these keys.
\<close>

definition roots_inv :: "world \<Rightarrow> path list \<Rightarrow> str set \<Rightarrow> bool" where
  "roots_inv w out seen =
     (list_all (\<lambda>r. exists w r = Inr True) out \<and> distinct (map (seen_key w) out)
      \<and> seen = seen_key w ` set out)"



text \<open>
  Lines as \<open>splitlines\<close> cuts them from a text without \<open>\r\<close>: a line has no line
  break but its last character, and only the last line may lack one.
\<close>

definition plain :: "str \<Rightarrow> bool" where
  "plain s = list_all (\<lambda>c. \<not> is_linebreak c) s"

definition ended :: "str \<Rightarrow> bool" where
  "ended l = (l \<noteq> [] \<and> plain (butlast l) \<and> is_linebreak (last l) \<and> last l \<noteq> CR)"

definition open_line :: "str \<Rightarrow> bool" where
  "open_line l = (l \<noteq> [] \<and> plain l)"

fun wf_lines :: "str list \<Rightarrow> bool" where
  "wf_lines [] = True"
| "wf_lines [l] = (ended l \<or> open_line l)"
| "wf_lines (l # m # ls) = (ended l \<and> wf_lines (m # ls))"

text \<open>
  What making directories on the way to \<open>q\<close> may change: nothing but the store, and
  the store only where nothing was, at \<open>q\<close> or above it.
\<close>

definition grows_to :: "path \<Rightarrow> world \<Rightarrow> world \<Rightarrow> bool" where
  "grows_to q w w1 =
     (w1 = w\<lparr>nodes := nodes w1\<rparr>
      \<and> (\<forall>x. nodes w1 x = nodes w x \<or> (nodes w x = None \<and> under x q)))"

section \<open>Sample worlds\<close>

text \<open>
  A small installation on a Posix system: the game directory with a \<open>Data\<close> folder that
  holds the NVMP launcher, an NVMP log, the load list and an unrelated plugin; and an
  empty directory for backups.
\<close>

text \<open>A table that knows nothing beyond U+00FF; the texts of the samples do not reach it.\<close>

definition plain_table :: ucd where
  "plain_table =
     \<lparr>tolower = (\<lambda>c. c), isalnum = (\<lambda>c. False), isspace = (\<lambda>c. False),
      lower_str = (\<lambda>s. s)\<rparr>"

text \<open>
  A table that knows one character beyond U+00FF: the capital I with a dot, U+0130.  The
  regular expressions lower it to \<open>i\<close>; \<open>str.lower\<close> turns it into \<open>i\<close> followed by
  the combining dot U+0307, which is neither a letter nor a digit.
\<close>

definition dotted_table :: ucd where
  "dotted_table =
     \<lparr>tolower = (\<lambda>c. if c = 304 then 105 else c), isalnum = (\<lambda>c. c = 304),
      isspace = (\<lambda>c. False),
      lower_str = (\<lambda>s. concat (map (\<lambda>c. if c = 304 then [105, 775] else [latin1_lower c]) s))\<rparr>"

definition dotted_name :: str where
  "dotted_name = str_of ''NEW VEGAS MULT'' @ [304] @ str_of ''PLAYER''"

definition p_root :: path where
  "p_root = \<lparr>drive = [], root = str_of ''/'', names = []\<rparr>"

definition p_game :: path where
  "p_game = child p_root (str_of ''game'')"

definition p_data :: path where
  "p_data = child p_game (str_of ''Data'')"

definition p_launcher :: path where
  "p_launcher = child p_data (str_of ''NVMP_Launcher.exe'')"

definition p_log :: path where
  "p_log = child p_data (str_of ''nvmp.log'')"

definition p_plugins :: path where
  "p_plugins = child p_data (str_of ''plugins.txt'')"

definition p_other :: path where
  "p_other = child p_data (str_of ''SomeOtherMod.esp'')"

definition p_backups :: path where
  "p_backups = child p_root (str_of ''backups'')"

definition p_fresh :: path where
  "p_fresh = child p_backups (str_of ''NVMP_Removed_20240101_000000'')"

definition plugins_text :: str where
  "plugins_text = str_of ''FalloutNV.esm\<newline>NVMP.esp\<newline>SomeOtherMod.esp\<newline>''"

definition clean_text :: str where
  "clean_text = str_of ''FalloutNV.esm\<newline>SomeOtherMod.esp\<newline>''"

text \<open>\<open>Path(s)\<close> on a Posix system, for strings without a double slash at the start.\<close>

fun split_slash :: "str \<Rightarrow> str \<Rightarrow> str list" where
  "split_slash cur [] = [cur]"
| "split_slash cur (c # s) = (if c = 47 then cur # split_slash [] s else split_slash (cur @ [c]) s)"

definition posix_path :: "str \<Rightarrow> path" where
  "posix_path s =
     \<lparr>drive = [],
      root = (case s of [] \<Rightarrow> [] | c # _ \<Rightarrow> if c = 47 then [47] else []),
      names = filter (\<lambda>n. n \<noteq> [] \<and> n \<noteq> [46]) (split_slash [] s)\<rparr>"

definition game_walk :: "(path \<times> str list \<times> str list) list" where
  "game_walk =
     [ (p_game, [str_of ''Data''], []),
       (p_data, [], [str_of ''NVMP_Launcher.exe'', str_of ''nvmp.log'', str_of ''plugins.txt'', str_of ''SomeOtherMod.esp'']) ]"

definition data_walk :: "(path \<times> str list \<times> str list) list" where
  "data_walk =
     [ (p_data, [], [str_of ''NVMP_Launcher.exe'', str_of ''nvmp.log'', str_of ''plugins.txt'', str_of ''SomeOtherMod.esp'']) ]"

definition w_fnv :: world where
  "w_fnv =
     \<lparr>unicode = plain_table,
      flavour_of = Posix,
      environ = (\<lambda>k. None),
      path_of = posix_path,
      nodes = [p_root \<mapsto> Dir, p_game \<mapsto> Dir, p_data \<mapsto> Dir,
               p_launcher \<mapsto> File (str_of ''MZ''), p_log \<mapsto> File (str_of ''started\<newline>''),
               p_plugins \<mapsto> File plugins_text, p_other \<mapsto> File (str_of ''TES4''),
               p_backups \<mapsto> Dir],
      fault = (\<lambda>call. None),
      resolve = Inr,
      os_walk = (\<lambda>r. if r = p_game then game_walk else if r = p_data then data_walk else [])\<rparr>"

text \<open>The same installation with the load list free of NVMP lines.\<close>

definition w_clean :: world where
  "w_clean = put w_fnv p_plugins (File clean_text)"

text \<open>The same installation where deleting and reading are refused.\<close>

definition refuse_unlink_and_read :: "op \<Rightarrow> exn option" where
  "refuse_unlink_and_read call =
     (case call of
        OpUnlink p \<Rightarrow> Some (PermissionError (str_of ''[Errno 13] Permission denied''))
      | OpRead p \<Rightarrow> Some (OtherException (str_of ''OSError'') (str_of ''[Errno 5] Input/output error''))
      | _ \<Rightarrow> None)"

definition w_locked :: world where
  "w_locked = w_fnv\<lparr>fault := refuse_unlink_and_read\<rparr>"

text \<open>The installation with the clean load list, where reading is refused.\<close>

definition w_unreadable :: world where
  "w_unreadable = w_clean\<lparr>fault := refuse_unlink_and_read\<rparr>"

text \<open>
  The same installation on a file system that refuses names of more than 255
  characters: \<open>os.stat\<close> and \<open>os.lstat\<close> of such a path fail with \<open>ENAMETOOLONG\<close>.  The
  path \<open>p_long\<close> has such a name; nothing is there.
\<close>

definition name_too_long :: exn where
  "name_too_long = OtherException (str_of ''OSError'') (str_of ''[Errno 36] File name too long'')"

definition overlong :: "path \<Rightarrow> bool" where
  "overlong p = list_ex (\<lambda>n. 255 < length n) (names p)"

definition refuse_long_names :: "op \<Rightarrow> exn option" where
  "refuse_long_names call =
     (case call of
        OpStat p \<Rightarrow> if overlong p then Some name_too_long else None
      | OpLstat p \<Rightarrow> if overlong p then Some name_too_long else None
      | _ \<Rightarrow> None)"

definition w_long :: world where
  "w_long = w_fnv\<lparr>fault := refuse_long_names\<rparr>"

definition p_long :: path where
  "p_long = child p_root (replicate 300 97)"

text \<open>
  A Windows system on which the game directory is reachable under two spellings that
  differ in case only.  No environment variable is set, so \<open>Path(s)\<close> is never asked
  for; \<open>path_of\<close> reads a string as one relative name.
\<close>

definition p_c :: path where
  "p_c = \<lparr>drive = str_of ''C:'', root = [92], names = []\<rparr>"

definition p_fnv :: path where
  "p_fnv = descend p_c [''Games'', ''FNV'']"

definition p_fnv_lc :: path where
  "p_fnv_lc = descend (p_c\<lparr>drive := str_of ''c:''\<rparr>) [''games'', ''fnv'']"

definition w_win :: world where
  "w_win =
     \<lparr>unicode = plain_table,
      flavour_of = Windows,
      environ = (\<lambda>k. None),
      path_of = (\<lambda>s. \<lparr>drive = [], root = [], names = [s]\<rparr>),
      nodes = [p_c \<mapsto> Dir, child p_c (str_of ''Games'') \<mapsto> Dir, p_fnv \<mapsto> Dir, p_fnv_lc \<mapsto> Dir],
      fault = (\<lambda>call. None),
      resolve = Inr,
      os_walk = (\<lambda>r. [])\<rparr>"

text \<open>Three nested paths for the collapse.\<close>

definition p_a :: path where
  "p_a = child p_root (str_of ''a'')"

definition p_ab :: path where
  "p_ab = child p_a (str_of ''b'')"

definition p_abc :: path where
  "p_abc = child p_ab (str_of ''c'')"

section \<open>Matcher: the case of ASCII letters does not matter\<close>















section \<open>Matcher: the known patterns match\<close>










text \<open>
  Beyond U+00FF the matcher does not commute with \<open>str.lower\<close>: the full name written
  with a dotted capital I matches, its lower-case form does not.
\<close>

lemma dotted_name_matches_lower_does_not:
  "pat_match dotted_table dotted_name
   \<and> str_lower dotted_table dotted_name
       = str_of ''new vegas multi'' @ [775] @ str_of ''player''
   \<and> \<not> pat_match dotted_table (str_lower dotted_table dotted_name)"
  by code_simp

section \<open>Scanner: properties of the collapse\<close>

lemma sorted_collapse: "sorted (map (depth_key u fl) (collapse_covered_paths u fl paths))"
  by (simp add: collapse_covered_paths_def sorted_filter)

lemma covered_mono: "S \<subseteq> T \<Longrightarrow> covered u fl S p \<Longrightarrow> covered u fl T p"
  by (auto simp: covered_def list_ex_iff)

lemma collapse_subset: "set (collapse_covered_paths u fl paths) \<subseteq> set paths"
  by (auto simp: collapse_covered_paths_def)

lemma collapse_not_covered:
  "p \<in> set (collapse_covered_paths u fl paths) \<Longrightarrow> \<not> covered u fl (set (map (path_key u fl) paths)) p"
  by (auto simp: collapse_covered_paths_def)

lemma ancestor_covers:
  "d \<in> set paths \<Longrightarrow> is_ancestor u fl d p \<Longrightarrow> covered u fl (set (map (path_key u fl) paths)) p"
  by (auto simp: covered_def is_ancestor_def list_ex_iff)

lemma not_covered_kept:
  "p \<in> set paths \<Longrightarrow> \<not> covered u fl (set (map (path_key u fl) paths)) p
   \<Longrightarrow> p \<in> set (collapse_covered_paths u fl paths)"
  by (auto simp: collapse_covered_paths_def)

lemma covered_has_ancestor:
  "covered u fl (set (map (path_key u fl) paths)) p \<Longrightarrow> \<exists>q \<in> set paths. is_ancestor u fl q p"
  by (auto simp: covered_def is_ancestor_def list_ex_iff)

section \<open>Scanner: the invariant of the walk\<close>

lemma add_inv:
  "add w p ms seen = (ms', seen') \<Longrightarrow> scan_inv w ms seen \<Longrightarrow> scan_inv w ms' seen'"
  unfolding scan_inv_def by (fastforce simp: add_def Let_def split: if_splits)

lemma scan_names_inv: "scan_inv w ms seen \<Longrightarrow> scan_ok w (scan_names w mx dp ds ms seen)"
proof (induction ds arbitrary: ms seen)
  case Nil
  then show ?case by (simp add: scan_ok_def)
next
  case (Cons d ds)
  show ?case
  proof (cases "pat_match (unicode w) d")
    case False
    then show ?thesis using Cons by simp
  next
    case True
    show ?thesis
    proof (cases "resolve w (child dp d)")
      case (Inl e)
      then show ?thesis using True by (simp add: scan_ok_def)
    next
      case (Inr p)
      obtain ms' seen' where a: "add w p ms seen = (ms', seen')"
        by (cases "add w p ms seen")
      have i: "scan_inv w ms' seen'"
        using add_inv[OF a Cons.prems] .
      show ?thesis
        using True Inr a i Cons.IH[OF i] by (simp add: scan_ok_def scan_inv_def)
    qed
  qed
qed

lemma scan_walk_inv: "scan_inv w ms seen \<Longrightarrow> scan_ok w (scan_walk w mx ts ms seen)"
proof (induction ts arbitrary: ms seen)
  case Nil
  then show ?case by (simp add: scan_ok_def)
next
  case (Cons t ts)
  obtain dp dn fn where t: "t = (dp, dn, fn)"
    by (cases t)
  show ?case
  proof (cases "scan_names w mx dp dn ms seen")
    case (Go ms1 seen1)
    have i1: "scan_inv w ms1 seen1"
      using scan_names_inv[OF Cons.prems, of mx dp dn] Go by (simp add: scan_ok_def)
    show ?thesis
    proof (cases "scan_names w mx dp fn ms1 seen1")
      case g2: (Go ms2 seen2)
      have i2: "scan_inv w ms2 seen2"
        using scan_names_inv[OF i1, of mx dp fn] g2 by (simp add: scan_ok_def)
      show ?thesis using t Go g2 Cons.IH[OF i2] by simp
    next
      case (Stop ms2)
      then show ?thesis
        using t Go scan_names_inv[OF i1, of mx dp fn] by (simp add: scan_ok_def)
    next
      case (Fail e)
      then show ?thesis using t Go by (simp add: scan_ok_def)
    qed
  next
    case (Stop ms1)
    then show ?thesis
      using t scan_names_inv[OF Cons.prems, of mx dp dn] by (simp add: scan_ok_def)
  next
    case (Fail e)
    then show ?thesis using t by (simp add: scan_ok_def)
  qed
qed

lemma scan_roots_inv: "scan_inv w ms seen \<Longrightarrow> scan_ok w (scan_roots w mx rs ms seen)"
proof (induction rs arbitrary: ms seen)
  case Nil
  then show ?case by (simp add: scan_ok_def)
next
  case (Cons r rs)
  show ?case
  proof (cases "scan_walk w mx (os_walk w r) ms seen")
    case (Go ms1 seen1)
    have i1: "scan_inv w ms1 seen1"
      using scan_walk_inv[OF Cons.prems, of mx "os_walk w r"] Go by (simp add: scan_ok_def)
    show ?thesis using Go Cons.IH[OF i1] by simp
  next
    case (Stop ms1)
    then show ?thesis
      using scan_walk_inv[OF Cons.prems, of mx "os_walk w r"] by (simp add: scan_ok_def)
  next
    case (Fail e)
    then show ?thesis by (simp add: scan_ok_def)
  qed
qed

lemma distinct_map_sort_key: "distinct (map f (sort_key g xs)) = distinct (map f xs)"
  by (simp add: distinct_map)

section \<open>Locator: the existence tests and the loop of \<open>build_roots\<close>\<close>

lemma exists_True_present: "exists w p = Inr True \<Longrightarrow> present w p"
  by (auto simp: exists_def split: option.splits)

lemma exists_no_fault: "fault w (OpStat p) = None \<Longrightarrow> exists w p = Inr (present w p)"
  by (simp add: exists_def)

text \<open>What the loop returns, when it returns.\<close>

lemma keep_existing_spec:
  "keep_existing w rs out seen = Inr roots \<Longrightarrow> roots_inv w out seen \<Longrightarrow>
     roots_inv w roots (seen_key w ` set roots)
     \<and> set out \<subseteq> set roots
     \<and> set roots \<subseteq> set out \<union> resolved w ` set rs
     \<and> (\<forall>c \<in> set rs. exists w (resolved w c) = Inr True
            \<longrightarrow> seen_key w (resolved w c) \<in> seen_key w ` set roots)"
proof (induction rs arbitrary: out seen)
  case Nil
  then show ?case by (auto simp: roots_inv_def)
next
  case (Cons r rs)
  let ?rr = "resolved w r"
  let ?key = "seen_key w ?rr"
  show ?case
  proof (cases "?key \<in> seen")
    case True
    then have k: "keep_existing w rs out seen = Inr roots"
      using Cons.prems(1) by (simp add: Let_def)
    have ih: "roots_inv w roots (seen_key w ` set roots) \<and> set out \<subseteq> set roots
        \<and> set roots \<subseteq> set out \<union> resolved w ` set rs
        \<and> (\<forall>c \<in> set rs. exists w (resolved w c) = Inr True
              \<longrightarrow> seen_key w (resolved w c) \<in> seen_key w ` set roots)"
      using Cons.IH[OF k Cons.prems(2)] .
    have "?key \<in> seen_key w ` set roots"
      using True Cons.prems(2) ih by (auto simp: roots_inv_def)
    then show ?thesis using ih by auto
  next
    case False
    show ?thesis
    proof (cases "exists w ?rr")
      case (Inl e)
      then show ?thesis using Cons.prems(1) False by (simp add: Let_def)
    next
      case (Inr b)
      show ?thesis
      proof (cases b)
        case True
        have k: "keep_existing w rs (out @ [?rr]) (insert ?key seen) = Inr roots"
          using Cons.prems(1) False Inr True by (simp add: Let_def)
        have i: "roots_inv w (out @ [?rr]) (insert ?key seen)"
          using Cons.prems(2) False Inr True unfolding roots_inv_def by auto
        have ih: "roots_inv w roots (seen_key w ` set roots) \<and> set (out @ [?rr]) \<subseteq> set roots
            \<and> set roots \<subseteq> set (out @ [?rr]) \<union> resolved w ` set rs
            \<and> (\<forall>c \<in> set rs. exists w (resolved w c) = Inr True
                  \<longrightarrow> seen_key w (resolved w c) \<in> seen_key w ` set roots)"
          using Cons.IH[OF k i] .
        then show ?thesis by auto
      next
        case nope: False
        have k: "keep_existing w rs out seen = Inr roots"
          using Cons.prems(1) False Inr nope by (simp add: Let_def)
        have ih: "roots_inv w roots (seen_key w ` set roots) \<and> set out \<subseteq> set roots
            \<and> set roots \<subseteq> set out \<union> resolved w ` set rs
            \<and> (\<forall>c \<in> set rs. exists w (resolved w c) = Inr True
                  \<longrightarrow> seen_key w (resolved w c) \<in> seen_key w ` set roots)"
          using Cons.IH[OF k Cons.prems(2)] .
        then show ?thesis using Inr nope by auto
      qed
    qed
  qed
qed

text \<open>When no existence test fails, every part of \<open>build_roots\<close> returns.\<close>

lemma keep_if_exists_returns:
  "\<forall>p. fault w (OpStat p) = None \<Longrightarrow> \<exists>ds'. keep_if_exists w ds = Inr ds'"
  by (induction ds) (auto simp: exists_def)

lemma mo2_near_returns:
  "\<forall>p. fault w (OpStat p) = None \<Longrightarrow> \<exists>ds. mo2_near w par = Inr ds"
  by (simp add: mo2_near_def exists_def)

lemma root_candidates_returns:
  assumes "\<forall>p. fault w (OpStat p) = None"
  shows "\<exists>cs. root_candidates w g m v = Inr cs"
proof -
  obtain us where u: "user_dirs w = Inr us"
    using keep_if_exists_returns[OF assms] unfolding user_dirs_def Let_def by blast
  have "\<exists>vs. likely_vortex_mod_roots w = Inr vs"
  proof (cases "env_truthy w ''APPDATA''")
    case None
    then show ?thesis by (simp add: likely_vortex_mod_roots_def)
  next
    case (Some roam)
    then show ?thesis
      using keep_if_exists_returns[OF assms] unfolding likely_vortex_mod_roots_def
      by (simp only: option.case)
  qed
  then obtain vs where v: "(case v of Some x \<Rightarrow> Inr [x] | None \<Rightarrow> likely_vortex_mod_roots w) = Inr vs"
    by (cases v) auto
  obtain ms where m: "(case m of Some x \<Rightarrow> Inr [x] | None \<Rightarrow> likely_mo2_roots_near_game w g) = Inr ms"
  proof (cases m)
    case (Some x)
    then show ?thesis using that by simp
  next
    case None
    show ?thesis
    proof (cases g)
      case gn: None
      then show ?thesis using that None by (simp add: likely_mo2_roots_near_game_def)
    next
      case (Some gd)
      obtain a where a: "mo2_near w (parent gd) = Inr a"
        using mo2_near_returns[OF assms] by blast
      obtain b where b: "mo2_near w (parent (parent gd)) = Inr b"
        using mo2_near_returns[OF assms] by blast
      show ?thesis using that None Some a b by (simp add: likely_mo2_roots_near_game_def)
    qed
  qed
  show ?thesis using u v m by (simp add: root_candidates_def)
qed

lemma keep_existing_returns:
  "\<forall>p. fault w (OpStat p) = None \<Longrightarrow> \<exists>roots. keep_existing w rs out seen = Inr roots"
  by (induction rs arbitrary: out seen) (auto simp: exists_def Let_def)

lemma build_roots_returns:
  assumes "\<forall>p. fault w (OpStat p) = None"
  shows "\<exists>roots. build_roots w g m v = Inr roots"
proof -
  obtain cs where "root_candidates w g m v = Inr cs"
    using root_candidates_returns[OF assms] by blast
  then show ?thesis using keep_existing_returns[OF assms] by (simp add: build_roots_def)
qed

lemma given_are_candidates:
  "root_candidates w g m v = Inr cs \<Longrightarrow> set (given_candidates g m v) \<subseteq> set cs"
  by (auto simp: root_candidates_def given_candidates_def split: sum.splits option.splits)

section \<open>Text editor: lines survive the round trip through the file\<close>

lemma LF_not_CR: "LF \<noteq> CR"
  by (simp add: LF_def CR_def)

lemma CR_linebreak: "is_linebreak CR"
  by (simp add: is_linebreak_def CR_def)

lemma CR_not_LF: "CR \<noteq> LF"
  by (simp add: LF_def CR_def)

lemma nl_in_no_CR: "CR \<notin> set (nl_in s)"
  by (induction s rule: nl_in.induct) (auto simp: CR_not_LF)

lemma nl_in_step: "c \<noteq> CR \<Longrightarrow> nl_in (c # s) = c # nl_in s"
  by (cases s) simp_all

lemma nl_in_nl_out: "CR \<notin> set s \<Longrightarrow> nl_in (nl_out fl s) = s"
proof (induction s)
  case Nil
  show ?case by (simp add: nl_out_def)
next
  case (Cons c s)
  have ih: "nl_in (nl_out fl s) = s" using Cons by simp
  have c: "c \<noteq> CR" using Cons.prems by auto
  show ?case
  proof (cases "c = LF")
    case True
    show ?thesis
    proof (cases fl)
      case Posix
      then show ?thesis using True ih nl_in_step[of LF "nl_out fl s"] LF_not_CR
        by (simp add: nl_out_def linesep_def)
    next
      case Windows
      then show ?thesis using True ih by (simp add: nl_out_def linesep_def)
    qed
  next
    case False
    then show ?thesis using ih c nl_in_step[of c "nl_out fl s"] by (simp add: nl_out_def)
  qed
qed

lemma splitlines_acc_step:
  "c \<noteq> CR \<Longrightarrow> splitlines_acc cur (c # s) =
     (if is_linebreak c then (cur @ [c]) # splitlines_acc [] s else splitlines_acc (cur @ [c]) s)"
  by (cases s) simp_all

lemma concat_splitlines_acc: "concat (splitlines_acc cur s) = cur @ s"
  by (induction cur s rule: splitlines_acc.induct) auto

lemma wf_lines_Cons: "ended l \<Longrightarrow> wf_lines ls \<Longrightarrow> wf_lines (l # ls)"
  by (cases ls) simp_all

lemma wf_splitlines_acc: "CR \<notin> set s \<Longrightarrow> plain cur \<Longrightarrow> wf_lines (splitlines_acc cur s)"
proof (induction s arbitrary: cur)
  case Nil
  then show ?case by (simp add: open_line_def)
next
  case (Cons c s)
  have c: "c \<noteq> CR" and s: "CR \<notin> set s" using Cons.prems by auto
  show ?case
  proof (cases "is_linebreak c")
    case True
    have "ended (cur @ [c])" using True c Cons.prems by (simp add: ended_def)
    moreover have "wf_lines (splitlines_acc [] s)" using Cons.IH[OF s] by (simp add: plain_def)
    ultimately show ?thesis using True c by (simp add: splitlines_acc_step wf_lines_Cons)
  next
    case False
    have "plain (cur @ [c])" using False Cons.prems by (simp add: plain_def)
    then show ?thesis using False c Cons.IH[OF s] by (simp add: splitlines_acc_step)
  qed
qed

lemma wf_lines_filter: "wf_lines ls \<Longrightarrow> wf_lines (filter P ls)"
proof (induction ls rule: wf_lines.induct)
  case (3 l m ls)
  then show ?case by (simp add: wf_lines_Cons)
qed simp_all

lemma plain_not_CR: "plain s \<Longrightarrow> c \<in> set s \<Longrightarrow> c \<noteq> CR"
  using CR_linebreak by (auto simp: plain_def list_all_iff)

lemma splitlines_acc_plain:
  "plain l \<Longrightarrow> splitlines_acc cur l = (if cur @ l = [] then [] else [cur @ l])"
proof (induction l arbitrary: cur)
  case Nil
  show ?case by simp
next
  case (Cons c l)
  have "c \<noteq> CR" using plain_not_CR[OF Cons.prems, of c] by simp
  moreover have "\<not> is_linebreak c" and "plain l" using Cons.prems by (simp_all add: plain_def)
  ultimately show ?case using Cons.IH[of "cur @ [c]"] by (simp add: splitlines_acc_step)
qed

lemma splitlines_acc_line:
  "plain body \<Longrightarrow> is_linebreak t \<Longrightarrow> t \<noteq> CR
   \<Longrightarrow> splitlines_acc cur (body @ t # rest) = (cur @ body @ [t]) # splitlines_acc [] rest"
proof (induction body arbitrary: cur)
  case Nil
  then show ?case by (simp add: splitlines_acc_step)
next
  case (Cons c body)
  have "c \<noteq> CR" using plain_not_CR[OF Cons.prems(1), of c] by simp
  moreover have "\<not> is_linebreak c" and "plain body" using Cons.prems by (simp_all add: plain_def)
  ultimately show ?case using Cons.IH[of "cur @ [c]"] Cons.prems by (simp add: splitlines_acc_step)
qed

lemma splitlines_acc_ended:
  assumes "ended l"
  shows "splitlines_acc [] (l @ rest) = l # splitlines_acc [] rest"
proof -
  have l: "l = butlast l @ [last l]" using assms by (simp add: ended_def)
  have "splitlines_acc [] (butlast l @ last l # rest) = ([] @ butlast l @ [last l]) # splitlines_acc [] rest"
    using assms by (intro splitlines_acc_line) (simp_all add: ended_def)
  then show ?thesis using l by (metis append.assoc append_Cons append_Nil)
qed

lemma splitlines_concat: "wf_lines ls \<Longrightarrow> splitlines_acc [] (concat ls) = ls"
proof (induction ls rule: wf_lines.induct)
  case 1
  show ?case by simp
next
  case (2 l)
  then show ?case
    using splitlines_acc_ended[of l "[]"] splitlines_acc_plain[of l "[]"]
    by (auto simp: open_line_def)
next
  case (3 l m ls)
  then show ?case using splitlines_acc_ended[of l "concat (m # ls)"] by simp
qed

lemma split_lines_eq:
  "split_lines u raw kept removed =
     (kept @ filter (\<lambda>l. \<not> pat_match u l) raw, removed @ map rstrip_nl (filter (pat_match u) raw))"
  by (induction raw arbitrary: kept removed) simp_all

text \<open>Reading back what the editor writes gives the kept lines.\<close>

lemma kept_round_trip:
  assumes "CR \<notin> set txt"
  shows "splitlines_keep (nl_in (nl_out fl (concat (filter P (splitlines_keep txt))))) = filter P (splitlines_keep txt)"
proof -
  let ?kept = "filter P (splitlines_keep txt)"
  have "set (concat ?kept) \<subseteq> set (concat (splitlines_keep txt))" by auto
  then have "CR \<notin> set (concat ?kept)"
    using assms by (auto simp: splitlines_keep_def concat_splitlines_acc)
  then have "nl_in (nl_out fl (concat ?kept)) = concat ?kept" by (rule nl_in_nl_out)
  moreover have "wf_lines ?kept"
    using wf_splitlines_acc[OF assms, of "[]"] by (simp add: splitlines_keep_def plain_def wf_lines_filter)
  ultimately show ?thesis using splitlines_concat[of ?kept] by (simp add: splitlines_keep_def)
qed

section \<open>Making directories only adds to the store\<close>

lemma under_refl: "under q q"
  by (simp add: under_def)

lemma under_parent: "under x (parent q) \<Longrightarrow> under x q"
proof -
  assume a: "under x (parent q)"
  have "take (length (names x)) (butlast (names q)) = names x"
    using a by (simp add: under_def parent_def)
  then have "take (length (names x)) (names q) = names x"
    by (metis butlast_conv_take length_take min.absorb4 min.cobounded1 take_take linorder_not_less min_def)
  then show ?thesis using a by (simp add: under_def parent_def)
qed

lemma not_under_child: "\<not> under (child b n) b"
  by (auto simp: under_def child_def dest: arg_cong[where f = length])

lemma grows_to_refl: "grows_to q w w"
  by (simp add: grows_to_def)

lemma grows_to_trans:
  assumes "grows_to q w w1" and "grows_to q w1 w2"
  shows "grows_to q w w2"
proof -
  have "w1 = w\<lparr>nodes := nodes w1\<rparr>" and "w2 = w1\<lparr>nodes := nodes w2\<rparr>"
    using assms by (simp_all add: grows_to_def)
  then have "w2 = w\<lparr>nodes := nodes w1\<rparr>\<lparr>nodes := nodes w2\<rparr>" by simp
  then have eq: "w2 = w\<lparr>nodes := nodes w2\<rparr>" by simp
  have "nodes w2 x = nodes w x \<or> (nodes w x = None \<and> under x q)" for x
    using assms unfolding grows_to_def by (metis option.distinct(1))
  then show ?thesis using eq unfolding grows_to_def by blast
qed

lemma grows_to_parent: "grows_to (parent q) w w1 \<Longrightarrow> grows_to q w w1"
  unfolding grows_to_def using under_parent by blast

lemma os_mkdir_Err: "os_mkdir w p = Err e w1 \<Longrightarrow> w1 = w"
  by (auto simp: os_mkdir_def split: option.splits if_splits node.splits)

lemma os_mkdir_Ok: "os_mkdir w p = Ok u w1 \<Longrightarrow> grows_to p w w1"
  by (auto simp: os_mkdir_def grows_to_def put_def present_def under_refl
      split: option.splits if_splits node.splits)

lemma unless_dir_same: "unless_dir w p e = Ok u w1 \<Longrightarrow> w1 = w"
  by (auto simp: unless_dir_def split: sum.splits if_splits)

lemma mkdir_exist_ok_Ok: "mkdir_exist_ok w p = Ok u w1 \<Longrightarrow> grows_to p w w1"
  using os_mkdir_Ok[of w p] os_mkdir_Err[of w p]
  by (auto simp: mkdir_exist_ok_def grows_to_refl split: result.splits if_splits
      dest!: unless_dir_same)

lemma ensure_dir_grows: "ensure_dir w p = Ok u w1 \<Longrightarrow> grows_to p w w1"
proof (induction w p arbitrary: u w1 rule: ensure_dir.induct)
  case (1 w p)
  show ?case
  proof (cases "os_mkdir w p")
    case (Ok u0 w0)
    then show ?thesis using "1.prems" os_mkdir_Ok[of w p] by (simp add: ensure_dir.simps[of w p])
  next
    case (Err e w0)
    have w0: "w0 = w" using os_mkdir_Err[OF Err] .
    show ?thesis
    proof (cases "is_not_found e")
      case False
      then show ?thesis using "1.prems" Err w0
        by (auto simp: ensure_dir.simps[of w p] grows_to_refl dest!: unless_dir_same)
    next
      case True
      show ?thesis
      proof (cases "names p = []")
        case True
        then show ?thesis using "1.prems" Err \<open>is_not_found e\<close> by (simp add: ensure_dir.simps[of w p])
      next
        case False
        show ?thesis
        proof (cases "ensure_dir w0 (parent p)")
          case e2: (Err e2 w2)
          then show ?thesis using "1.prems" Err True False by (simp add: ensure_dir.simps[of w p])
        next
          case o2: (Ok u2 w2)
          have g1: "grows_to (parent p) w0 w2"
            using "1.IH"[OF Err True False o2] .
          have m: "mkdir_exist_ok w2 p = Ok u w1"
            using "1.prems" Err True False o2 by (simp add: ensure_dir.simps[of w p])
          show ?thesis
            using grows_to_trans[OF grows_to_parent[OF g1] mkdir_exist_ok_Ok[OF m]] w0 by simp
        qed
      qed
    qed
  qed
qed

lemma grows_keeps: "grows_to q w w1 \<Longrightarrow> nodes w x = Some n \<Longrightarrow> nodes w1 x = Some n"
  unfolding grows_to_def by (metis option.distinct(1))

lemma grows_outside: "grows_to q w w1 \<Longrightarrow> \<not> under x q \<Longrightarrow> nodes w1 x = nodes w x"
  unfolding grows_to_def by metis

lemma grows_same_but_nodes:
  assumes "grows_to q w w1"
  shows "flavour_of w1 = flavour_of w" and "fault w1 = fault w" and "unicode w1 = unicode w"
proof -
  have eq: "w1 = w\<lparr>nodes := nodes w1\<rparr>" using assms by (simp add: grows_to_def)
  show "flavour_of w1 = flavour_of w" by (subst eq) simp
  show "fault w1 = fault w" by (subst eq) simp
  show "unicode w1 = unicode w" by (subst eq) simp
qed


section \<open>Text editor: the effect of a run\<close>

lemma not_dir_at_os_path: "\<not> dir_at w p \<Longrightarrow> \<not> os_path_isdir w p"
  by (auto simp: os_path_isdir_def is_dir_def split: option.splits)

lemma backup_copy_Ok:
  assumes ok: "backup_copy w p bd = Ok r w2" and f: "nodes w p = Some (File c)"
  shows "flavour_of w2 = flavour_of w"
    and "nodes w2 p = Some (File c)"
    and "\<not> dir_at w (child bd (name p @ str_of ''.bak''))
         \<Longrightarrow> nodes w2 (child bd (name p @ str_of ''.bak'')) = Some (File c)"
proof -
  let ?bak = "child bd (name p @ str_of ''.bak'')"
  obtain u w1 where e: "ensure_dir w bd = Ok u w1" and c2: "copy2 w1 p ?bak = Ok r w2"
    using ok by (auto simp: backup_copy_def split: result.splits)
  have g: "grows_to bd w w1" using ensure_dir_grows[OF e] .
  have f1: "nodes w1 p = Some (File c)" using grows_keeps[OF g f] .
  have fl: "flavour_of w1 = flavour_of w" using grows_same_but_nodes(1)[OF g] .
  define dst where "dst = (if os_path_isdir w1 ?bak then child ?bak (name p) else ?bak)"
  have w2: "w2 = put w1 dst (File c)" and ne: "dst \<noteq> p"
    using c2 f1 by (auto simp: copy2_def Let_def dst_def split: option.splits if_splits)
  show "flavour_of w2 = flavour_of w" using w2 fl by (simp add: put_def)
  show "nodes w2 p = Some (File c)" using w2 ne f1 by (simp add: put_def)
  show "nodes w2 ?bak = Some (File c)" if nd: "\<not> dir_at w ?bak"
  proof -
    have "nodes w1 ?bak = nodes w ?bak"
      using grows_outside[OF g not_under_child] .
    then have "\<not> dir_at w1 ?bak" using nd by (simp add: dir_at_def)
    then have "dst = ?bak" using not_dir_at_os_path by (simp add: dst_def)
    then show ?thesis using w2 by (simp add: put_def)
  qed
qed

lemma bak_differs: "s \<noteq> [] \<Longrightarrow> child bd (name p @ s) \<noteq> p"
proof
  assume s: "s \<noteq> []" and eq: "child bd (name p @ s) = p"
  have n: "names p = names bd @ [name p @ s]"
    using arg_cong[OF eq, of names] by (simp add: child_def)
  then have ne: "names p \<noteq> []" by auto
  have "last (names p) = name p @ s" using n by (metis last_snoc)
  then have "name p = name p @ s" using ne by (simp add: name_def)
  then show False using s by simp
qed

lemma strip_try_Ok_public:
  "strip_try w p b d = Ok msgs w' \<Longrightarrow> strip_nvmp_lines_from_text_file w p b d = Ok msgs w'"
  by (simp add: strip_nvmp_lines_from_text_file_def)

lemma file_lines_File: "nodes w p = Some (File c) \<Longrightarrow> file_lines w p = splitlines_keep (nl_in c)"
  by (simp add: file_lines_def)

lemma filter_none: "\<not> list_ex P xs \<Longrightarrow> filter (\<lambda>l. \<not> P l) xs = xs"
  by (induction xs) auto

lemma length_filter_not: "length (filter (\<lambda>l. \<not> P l) xs) = length xs - length (filter P xs)"
  using sum_length_filter_compl[of P xs] by simp

text \<open>The two tests at the start of the editor.\<close>

lemma skip_of_file:
  "nodes w p = Some (File c) \<Longrightarrow> missing_or_no_file w p = Inr skip \<Longrightarrow> \<not> skip"
  by (auto simp: missing_or_no_file_def exists_def is_file_def present_def file_at_def
      split: option.splits if_splits)

lemma no_skip_is_file: "missing_or_no_file w p = Inr False \<Longrightarrow> \<exists>c. nodes w p = Some (File c)"
  by (auto simp: missing_or_no_file_def exists_def is_file_def file_at_def
      split: option.splits if_splits node.splits)

lemma tests_raise_like_stat:
  "missing_or_no_file w p = Inl e \<Longrightarrow> fault w (OpStat p) = Some e"
  by (auto simp: missing_or_no_file_def exists_def is_file_def split: option.splits if_splits)

lemma tests_without_fault:
  "fault w (OpStat p) = None \<Longrightarrow> \<exists>skip. missing_or_no_file w p = Inr skip"
  by (auto simp: missing_or_no_file_def exists_def is_file_def)

text \<open>A run of the body on a regular file either stops at the tests or at reading, or rewrites.\<close>

lemma strip_try_on_file:
  assumes ok: "strip_try w p b d = Ok msgs w'" and f: "nodes w p = Some (File c)"
  shows "rewrite w p b d
           (filter (\<lambda>l. \<not> pat_match (unicode w) l) (splitlines_keep (nl_in c)))
           (map rstrip_nl (filter (pat_match (unicode w)) (splitlines_keep (nl_in c))))
         = Ok msgs w'"
proof (cases "missing_or_no_file w p")
  case (Inl e)
  then show ?thesis using ok by (simp add: strip_try_def)
next
  case (Inr skip)
  have ns: "\<not> skip" using skip_of_file[OF f Inr] .
  have "read_text w p = Ok (nl_in c) w \<or> (\<exists>e. read_text w p = Err e w)"
    using f by (auto simp: read_text_def split: option.splits)
  then have rd: "read_text w p = Ok (nl_in c) w"
    using ok Inr ns by (auto simp: strip_try_def)
  show ?thesis using ok Inr ns rd by (simp add: strip_try_def split_lines_eq)
qed

text \<open>What a run of the editor's body that raises nothing leaves behind.\<close>

lemma strip_try_effect:
  assumes ok: "strip_try w p b d = Ok msgs w'" and f: "nodes w p = Some (File c)"
  shows "file_lines w' p = filter (\<lambda>l. \<not> pat_match (unicode w) l) (file_lines w p)"
    and "b = Some bd \<Longrightarrow> list_ex (pat_match (unicode w)) (file_lines w p)
         \<Longrightarrow> \<not> dir_at w (child bd (name p @ str_of ''.bak''))
         \<Longrightarrow> nodes w' (child bd (name p @ str_of ''.bak'')) = nodes w p"
proof -
  let ?lines = "splitlines_keep (nl_in c)"
  let ?kept = "filter (\<lambda>l. \<not> pat_match (unicode w) l) ?lines"
  let ?removed = "map rstrip_nl (filter (pat_match (unicode w)) ?lines)"
  let ?bak = "child bd (name p @ str_of ''.bak'')"
  have fl0: "file_lines w p = ?lines" using f by (rule file_lines_File)
  have rw: "rewrite w p b d ?kept ?removed = Ok msgs w'"
    using strip_try_on_file[OF ok f] .
  show "file_lines w' p = filter (\<lambda>l. \<not> pat_match (unicode w) l) (file_lines w p)"
  proof (cases "filter (pat_match (unicode w)) ?lines = []")
    case True
    then have "w' = w" using rw by (simp add: rewrite_def)
    moreover have "\<not> list_ex (pat_match (unicode w)) ?lines"
      using True by (simp add: list_ex_iff filter_empty_conv)
    ultimately show ?thesis using fl0 filter_none[of "pat_match (unicode w)" ?lines] by simp
  next
    case False
    obtain r w2 where
      bk: "(if \<not> d \<and> b \<noteq> None then (case b of Some bd' \<Rightarrow> backup_copy w p bd' | None \<Rightarrow> Ok p w)
            else if d \<and> b \<noteq> None then (case b of Some bd' \<Rightarrow> backup_copy w p bd' | None \<Rightarrow> Ok p w)
            else Ok p w) = Ok r w2"
      and wr: "\<exists>n. write_text w2 p (concat ?kept) = Ok n w'"
      using rw False by (auto simp: rewrite_def split: result.splits)
    have k2: "flavour_of w2 = flavour_of w \<and> nodes w2 p = Some (File c)"
      using bk f backup_copy_Ok(1,2)[of w p _ r w2 c] by (auto split: if_splits option.splits)
    have w': "w' = put w2 p (File (nl_out (flavour_of w2) (concat ?kept)))"
      using wr by (auto simp: write_text_def split: option.splits if_splits)
    have "file_lines w' p = splitlines_keep (nl_in (nl_out (flavour_of w2) (concat ?kept)))"
      using w' by (simp add: file_lines_def put_def)
    also have "\<dots> = ?kept" using kept_round_trip[OF nl_in_no_CR] .
    finally show ?thesis using fl0 by simp
  qed
  show "nodes w' ?bak = nodes w p"
    if b: "b = Some bd" and m: "list_ex (pat_match (unicode w)) (file_lines w p)"
      and nd: "\<not> dir_at w ?bak"
  proof -
    have ne: "filter (pat_match (unicode w)) ?lines \<noteq> []"
      using m fl0 by (auto simp: list_ex_iff filter_empty_conv)
    obtain r w2 where bk: "backup_copy w p bd = Ok r w2"
      and wr: "\<exists>n. write_text w2 p (concat ?kept) = Ok n w'"
      using rw ne b by (auto simp: rewrite_def split: result.splits if_splits)
    have c2: "nodes w2 ?bak = Some (File c)" using backup_copy_Ok(3)[OF bk f nd] .
    have pne: "?bak \<noteq> p" by (rule bak_differs) (simp add: str_of_def)
    have w': "w' = put w2 p (File (nl_out (flavour_of w2) (concat ?kept)))"
      using wr by (auto simp: write_text_def split: option.splits if_splits)
    show ?thesis using w' c2 f pne by (auto simp: put_def)
  qed
qed

lemma strip_try_not_file:
  assumes "strip_try w p b d = Ok msgs w'" and "\<not> file_at w p"
  shows "w' = w" and "file_lines w p = []"
proof -
  have "missing_or_no_file w p \<noteq> Inr False"
    using no_skip_is_file[of w p] assms(2) by (auto simp: file_at_def)
  then show "w' = w"
    using assms(1) by (cases "missing_or_no_file w p") (auto simp: strip_try_def)
  show "file_lines w p = []"
    using assms(2) by (auto simp: file_lines_def file_at_def split: option.splits node.splits)
qed

text \<open>
  A file without a matching line: the body of the editor returns nothing and changes
  nothing, or it raises at the tests or at reading and changes nothing.
\<close>

lemma strip_try_no_match:
  assumes n: "\<not> list_ex (pat_match (unicode w)) (file_lines w p)"
  shows "strip_try w p b d = Ok [] w
         \<or> (\<exists>e. strip_try w p b d = Err e w
                \<and> (fault w (OpStat p) = Some e \<or> fault w (OpRead p) = Some e))"
proof (cases "missing_or_no_file w p")
  case (Inl e)
  then show ?thesis using tests_raise_like_stat[OF Inl] by (simp add: strip_try_def)
next
  case (Inr skip)
  show ?thesis
  proof (cases skip)
    case True
    then show ?thesis using Inr by (simp add: strip_try_def)
  next
    case False
    then have "missing_or_no_file w p = Inr False" using Inr by simp
    then obtain c where c: "nodes w p = Some (File c)"
      using no_skip_is_file by blast
    have none: "filter (pat_match (unicode w)) (splitlines_keep (nl_in c)) = []"
      using n c by (auto simp: file_lines_def list_ex_iff filter_empty_conv)
    show ?thesis
    proof (cases "fault w (OpRead p)")
      case None
      then have "read_text w p = Ok (nl_in c) w" using c by (simp add: read_text_def)
      then show ?thesis
        using Inr False none by (simp add: strip_try_def split_lines_eq rewrite_def)
    next
      case (Some e)
      then have "read_text w p = Err e w" by (simp add: read_text_def)
      then show ?thesis using Inr False Some by (simp add: strip_try_def)
    qed
  qed
qed

lemma strip_frame:
  assumes n: "\<not> list_ex (pat_match (unicode w)) (file_lines w p)"
  shows "\<exists>msgs. strip_nvmp_lines_from_text_file w p b d = Ok msgs w"
    and "fault w (OpStat p) = None \<Longrightarrow> fault w (OpRead p) = None
         \<Longrightarrow> strip_nvmp_lines_from_text_file w p b d = Ok [] w"
proof -
  show "\<exists>msgs. strip_nvmp_lines_from_text_file w p b d = Ok msgs w"
  proof (cases "strip_try w p b d = Ok [] w")
    case True
    then show ?thesis using strip_try_Ok_public by blast
  next
    case False
    then obtain e where "strip_try w p b d = Err e w"
      using strip_try_no_match[OF n, of b d] by blast
    then show ?thesis by (cases e) (simp_all add: strip_nvmp_lines_from_text_file_def)
  qed
  show "strip_nvmp_lines_from_text_file w p b d = Ok [] w"
    if "fault w (OpStat p) = None" and "fault w (OpRead p) = None"
    using strip_try_no_match[OF n, of b d] that strip_try_Ok_public by auto
qed

text \<open>A refused read of a regular file becomes the editor's message.\<close>

lemma strip_read_refused:
  assumes f: "nodes w p = Some (File c)" and s: "fault w (OpStat p) = None"
    and r: "fault w (OpRead p) = Some (OtherException n m)"
  shows "strip_nvmp_lines_from_text_file w p b d
         = Ok [str_of ''ERROR editing '' @ path_str (flavour_of w) p @ str_of '': ''
               @ n @ str_of '': '' @ m] w"
proof -
  have "missing_or_no_file w p = Inr False"
    using f s by (simp add: missing_or_no_file_def exists_def is_file_def present_def file_at_def)
  moreover have "read_text w p = Err (OtherException n m) w"
    using r by (simp add: read_text_def)
  ultimately show ?thesis
    by (simp add: strip_nvmp_lines_from_text_file_def strip_try_def)
qed

text \<open>Without a backup directory the editor touches no path but the file.\<close>

lemma rewrite_only_touches_file:
  "rewrite w p None d kept removed = Ok msgs w' \<Longrightarrow> q \<noteq> p \<Longrightarrow> nodes w' q = nodes w q"
  "rewrite w p None d kept removed = Err e w' \<Longrightarrow> w' = w"
  by (auto simp: rewrite_def write_text_def put_def split: if_splits option.splits result.splits)

lemma strip_only_touches_file:
  assumes ok: "strip_nvmp_lines_from_text_file w p None d = Ok msgs w'" and q: "q \<noteq> p"
  shows "nodes w' q = nodes w q"
proof (cases "strip_try w p None d")
  case (Err e w1)
  have "w1 = w"
    using Err rewrite_only_touches_file(2)
    by (auto simp: strip_try_def read_text_def
        split: if_splits option.splits node.splits prod.splits result.splits sum.splits)
  moreover have "w' = w1"
    using ok Err by (cases e) (simp_all add: strip_nvmp_lines_from_text_file_def)
  ultimately show ?thesis by simp
next
  case (Ok m w1)
  have "w' = w1" using ok Ok by (simp add: strip_nvmp_lines_from_text_file_def)
  moreover have "nodes w1 q = nodes w q"
    using Ok q rewrite_only_touches_file(1)
    by (auto simp: strip_try_def read_text_def
        split: if_splits option.splits node.splits prod.splits result.splits sum.splits)
  ultimately show ?thesis by simp
qed

section \<open>Remover: a failing existence test\<close>

lemma remove_path_stat_refused:
  assumes "fault w (OpStat p) = Some (OtherException n m)"
  shows "remove_path w p b d
         = Ok (p, str_of ''ERROR ('' @ n @ str_of '': '' @ m @ str_of '')'') w"
  using assms by (simp add: remove_path_def remove_path_try_def exists_def)

section \<open>Scanner: the cap on the number of matches\<close>

lemma add_length: "add w p ms seen = (ms', seen') \<Longrightarrow> length ms' \<le> Suc (length ms)"
  by (auto simp: add_def Let_def split: if_splits)

lemma scan_names_within:
  "int (length ms) < mx \<Longrightarrow> scan_within mx (scan_names w mx dp ds ms seen)"
proof (induction ds arbitrary: ms seen)
  case Nil
  then show ?case by (simp add: scan_within_def)
next
  case (Cons d ds)
  show ?case
  proof (cases "pat_match (unicode w) d")
    case False
    then show ?thesis using Cons by simp
  next
    case True
    show ?thesis
    proof (cases "resolve w (child dp d)")
      case (Inl e)
      then show ?thesis using True by (simp add: scan_within_def)
    next
      case (Inr p)
      obtain ms' seen' where a: "add w p ms seen = (ms', seen')"
        by (cases "add w p ms seen")
      have le: "int (length ms') \<le> mx"
        using add_length[OF a] Cons.prems by simp
      show ?thesis
      proof (cases "int (length ms') \<ge> mx")
        case stop: True
        then show ?thesis using True Inr a le by (simp add: scan_within_def)
      next
        case go: False
        then have "int (length ms') < mx" by simp
        then show ?thesis using True Inr a go Cons.IH[of ms' seen'] by simp
      qed
    qed
  qed
qed

lemma scan_walk_within:
  "int (length ms) < mx \<Longrightarrow> scan_within mx (scan_walk w mx ts ms seen)"
proof (induction ts arbitrary: ms seen)
  case Nil
  then show ?case by (simp add: scan_within_def)
next
  case (Cons t ts)
  obtain dp dn fn where t: "t = (dp, dn, fn)"
    by (cases t)
  show ?case
  proof (cases "scan_names w mx dp dn ms seen")
    case (Go ms1 seen1)
    have i1: "int (length ms1) < mx"
      using scan_names_within[OF Cons.prems, of w dp dn seen] Go by (simp add: scan_within_def)
    show ?thesis
    proof (cases "scan_names w mx dp fn ms1 seen1")
      case g2: (Go ms2 seen2)
      have i2: "int (length ms2) < mx"
        using scan_names_within[OF i1, of w dp fn seen1] g2 by (simp add: scan_within_def)
      show ?thesis using t Go g2 Cons.IH[OF i2] by simp
    next
      case (Stop ms2)
      then show ?thesis
        using t Go scan_names_within[OF i1, of w dp fn seen1] by (simp add: scan_within_def)
    next
      case (Fail e)
      then show ?thesis using t Go by (simp add: scan_within_def)
    qed
  next
    case (Stop ms1)
    then show ?thesis
      using t scan_names_within[OF Cons.prems, of w dp dn seen] by (simp add: scan_within_def)
  next
    case (Fail e)
    then show ?thesis using t by (simp add: scan_within_def)
  qed
qed

lemma scan_roots_within:
  "int (length ms) < mx \<Longrightarrow> scan_within mx (scan_roots w mx rs ms seen)"
proof (induction rs arbitrary: ms seen)
  case Nil
  then show ?case by (simp add: scan_within_def)
next
  case (Cons r rs)
  show ?case
  proof (cases "scan_walk w mx (os_walk w r) ms seen")
    case (Go ms1 seen1)
    have i1: "int (length ms1) < mx"
      using scan_walk_within[OF Cons.prems, of w "os_walk w r" seen] Go by (simp add: scan_within_def)
    show ?thesis using Go Cons.IH[OF i1] by simp
  next
    case (Stop ms1)
    then show ?thesis
      using scan_walk_within[OF Cons.prems, of w "os_walk w r" seen] by (simp add: scan_within_def)
  next
    case (Fail e)
    then show ?thesis by (simp add: scan_within_def)
  qed
qed

lemma walk_cap_bound:
  "1 \<le> mx \<Longrightarrow> walk_find_matches w roots mx = Inr ms \<Longrightarrow> int (length ms) \<le> mx"
  using scan_roots_within[of "[]" mx w roots "{}"]
  by (auto simp: walk_find_matches_def scan_within_def split: scan.splits)

lemma walk_cap_one: "walk_find_matches w_fnv [p_game] 1 = Inr [p_launcher]"
  by code_simp

lemma walk_uncapped: "walk_find_matches w_fnv [p_game] 10000 = Inr [p_log, p_launcher]"
  by code_simp

section \<open>The claims\<close>

text \<open>
  Claim C1.  In delete mode \<open>main\<close> hands the editor no backup directory, so neither
  branch of the backup step runs.  On the sample installation the load list is
  rewritten without its NVMP line and no \<open>.bak\<close> copy is written: nothing appears at
  the place \<open>backup_root\<close> names, nor in the directory for backups.
  (\<open>strip_only_touches_file\<close> above: without a backup directory no path but the file
  changes, in any world.)
\<close>

theorem delete_mode_writes_no_backup:
  "(case main_clean_text w_fnv True p_fresh [p_plugins] [] of
      Ok msgs w' \<Rightarrow>
        msgs = [str_of ''EDITED: /game/Data/plugins.txt (removed 1 NVMP line(s))'']
        \<and> nodes w' p_plugins = Some (File clean_text)
        \<and> nodes w' p_fresh = None
        \<and> nodes w' (child p_fresh (str_of ''plugins.txt.bak'')) = None
        \<and> nodes w' (child p_backups (str_of ''plugins.txt.bak'')) = None
    | Err e w' \<Rightarrow> False)"
  by code_simp

text \<open>
  Claim C2, as amended.  No path in the result of \<open>collapse_covered_paths\<close> is an
  ancestor of another path in the result.  When the input holds a path \<open>d\<close> that is an
  ancestor of \<open>p\<close>, the result does not hold \<open>p\<close>.  The result keeps \<open>d\<close> when no path
  of the input is an ancestor of \<open>d\<close>; a directory that is itself covered is dropped
  with everything below it.
\<close>

theorem collapse_covers_descendants:
  "(\<forall>p \<in> set (collapse_covered_paths u fl paths).
      \<forall>q \<in> set (collapse_covered_paths u fl paths). \<not> is_ancestor u fl q p)
   \<and> (d \<in> set paths \<and> is_ancestor u fl d p \<longrightarrow> p \<notin> set (collapse_covered_paths u fl paths))
   \<and> (d \<in> set paths \<and> \<not> (\<exists>q \<in> set paths. is_ancestor u fl q d)
        \<longrightarrow> d \<in> set (collapse_covered_paths u fl paths))"
proof (intro conjI ballI impI)
  fix p q
  assume p: "p \<in> set (collapse_covered_paths u fl paths)"
    and q: "q \<in> set (collapse_covered_paths u fl paths)"
  have "q \<in> set paths" using q collapse_subset by blast
  then show "\<not> is_ancestor u fl q p"
    using collapse_not_covered[OF p] ancestor_covers by blast
next
  assume "d \<in> set paths \<and> is_ancestor u fl d p"
  then show "p \<notin> set (collapse_covered_paths u fl paths)"
    using collapse_not_covered ancestor_covers by blast
next
  assume a: "d \<in> set paths \<and> \<not> (\<exists>q \<in> set paths. is_ancestor u fl q d)"
  then have "\<not> covered u fl (set (map (path_key u fl) paths)) d"
    using covered_has_ancestor by blast
  then show "d \<in> set (collapse_covered_paths u fl paths)"
    using a not_covered_kept by blast
qed

text \<open>
  The three nested paths \<open>/a\<close>, \<open>/a/b\<close>, \<open>/a/b/c\<close>: the collapse keeps \<open>/a\<close> and drops
  \<open>/a/b/c\<close>.
\<close>

theorem collapse_covers_descendants_witness:
  "p_a \<in> set [p_abc, p_ab, p_a] \<and> is_ancestor plain_table Posix p_a p_abc
   \<and> p_abc \<notin> set (collapse_covered_paths plain_table Posix [p_abc, p_ab, p_a])
   \<and> p_a \<in> set (collapse_covered_paths plain_table Posix [p_abc, p_ab, p_a])"
proof -
  have m: "p_a \<in> set [p_abc, p_ab, p_a]" by simp
  have a: "is_ancestor plain_table Posix p_a p_abc" by code_simp
  have n: "\<not> (\<exists>q \<in> set [p_abc, p_ab, p_a]. is_ancestor plain_table Posix q p_a)" by code_simp
  show ?thesis
    using collapse_covers_descendants[of plain_table Posix "[p_abc, p_ab, p_a]" p_a p_abc] m a n
    by blast
qed

text \<open>
  Claim C2 as first stated fails on the same input: \<open>/a/b\<close> is in the input and is an
  ancestor of \<open>/a/b/c\<close>, yet the result does not retain \<open>/a/b\<close>, because \<open>/a\<close> covers it.
\<close>

theorem collapse_drops_covered_directory:
  "p_ab \<in> set [p_abc, p_ab, p_a] \<and> p_abc \<in> set [p_abc, p_ab, p_a]
   \<and> is_ancestor plain_table Posix p_ab p_abc
   \<and> p_ab \<notin> set (collapse_covered_paths plain_table Posix [p_abc, p_ab, p_a])"
  by code_simp



text \<open>
  Claim C4, as amended.  When the body of the editor raises nothing, the file holds
  afterwards the lines that do not match, in their order: \<open>N - M\<close> lines where it had
  \<open>N\<close> of which \<open>M\<close> matched.  When a backup directory was given (as in backup mode), at
  least one line matched and the backup path \<open>backup_dir/<name>.bak\<close> was not a
  directory before, that path holds afterwards what the file held before.
\<close>

theorem strip_round_trip:
  assumes "strip_try w p b d = Ok msgs w'"
  shows "strip_nvmp_lines_from_text_file w p b d = Ok msgs w'
     \<and> file_lines w' p = filter (\<lambda>l. \<not> pat_match (unicode w) l) (file_lines w p)
     \<and> length (file_lines w' p)
         = length (file_lines w p) - length (filter (pat_match (unicode w)) (file_lines w p))
     \<and> (b = Some bd \<and> list_ex (pat_match (unicode w)) (file_lines w p)
          \<and> \<not> dir_at w (child bd (name p @ str_of ''.bak''))
        \<longrightarrow> nodes w' (child bd (name p @ str_of ''.bak'')) = nodes w p)"
proof -
  have 1: "file_lines w' p = filter (\<lambda>l. \<not> pat_match (unicode w) l) (file_lines w p)"
  proof (cases "file_at w p")
    case True
    then obtain c where c: "nodes w p = Some (File c)"
      by (auto simp: file_at_def split: option.splits node.splits)
    show ?thesis using strip_try_effect(1)[OF assms c] .
  next
    case False
    then show ?thesis using strip_try_not_file[OF assms] by simp
  qed
  have 2: "length (file_lines w' p)
            = length (file_lines w p) - length (filter (pat_match (unicode w)) (file_lines w p))"
    using 1 length_filter_not[of "pat_match (unicode w)" "file_lines w p"] by simp
  have 3: "nodes w' (child bd (name p @ str_of ''.bak'')) = nodes w p"
    if h: "b = Some bd \<and> list_ex (pat_match (unicode w)) (file_lines w p)
           \<and> \<not> dir_at w (child bd (name p @ str_of ''.bak''))"
  proof (cases "file_at w p")
    case True
    then obtain c where c: "nodes w p = Some (File c)"
      by (auto simp: file_at_def split: option.splits node.splits)
    show ?thesis using strip_try_effect(2)[OF assms c, of bd] h by blast
  next
    case False
    then show ?thesis using strip_try_not_file(2)[OF assms] h by simp
  qed
  show ?thesis using strip_try_Ok_public[OF assms] 1 2 3 by blast
qed

text \<open>
  The load list of the sample installation, three lines of which one matches, in
  backup mode.
\<close>

theorem strip_round_trip_witness:
  "\<exists>msgs w'. strip_nvmp_lines_from_text_file w_fnv p_plugins (Some p_fresh) False = Ok msgs w'
     \<and> length (file_lines w_fnv p_plugins) = 3
     \<and> length (filter (pat_match (unicode w_fnv)) (file_lines w_fnv p_plugins)) = 1
     \<and> file_lines w' p_plugins = [str_of ''FalloutNV.esm\<newline>'', str_of ''SomeOtherMod.esp\<newline>'']
     \<and> nodes w' (child p_fresh (str_of ''plugins.txt.bak'')) = Some (File plugins_text)"
proof -
  have r: "(case strip_try w_fnv p_plugins (Some p_fresh) False of Ok m w \<Rightarrow> True | Err e w \<Rightarrow> False)"
    by code_simp
  then obtain msgs w' where ok: "strip_try w_fnv p_plugins (Some p_fresh) False = Ok msgs w'"
    by (cases "strip_try w_fnv p_plugins (Some p_fresh) False") simp_all
  have n: "name p_plugins @ str_of ''.bak'' = str_of ''plugins.txt.bak''" by code_simp
  have h: "list_ex (pat_match (unicode w_fnv)) (file_lines w_fnv p_plugins)" by code_simp
  have nd: "\<not> dir_at w_fnv (child p_fresh (str_of ''plugins.txt.bak''))" by code_simp
  have l: "filter (\<lambda>l. \<not> pat_match (unicode w_fnv) l) (file_lines w_fnv p_plugins)
            = [str_of ''FalloutNV.esm\<newline>'', str_of ''SomeOtherMod.esp\<newline>'']" by code_simp
  have l3: "length (file_lines w_fnv p_plugins) = 3" by code_simp
  have l1: "length (filter (pat_match (unicode w_fnv)) (file_lines w_fnv p_plugins)) = 1"
    by code_simp
  have c: "nodes w_fnv p_plugins = Some (File plugins_text)" by code_simp
  show ?thesis
    using strip_round_trip[OF ok, of p_fresh] n h nd l l3 l1 c by auto
qed

text \<open>
  Claim C4 as first stated fails for \<open>M = 0\<close>: a load list of two lines, none of which
  matches, is left alone in backup mode, and no copy exists at the backup path.
\<close>

theorem strip_without_match_writes_no_backup:
  "length (file_lines w_clean p_plugins) = 2
   \<and> length (filter (pat_match (unicode w_clean)) (file_lines w_clean p_plugins)) = 0
   \<and> strip_nvmp_lines_from_text_file w_clean p_plugins (Some p_fresh) False = Ok [] w_clean
   \<and> nodes w_clean (child p_fresh (name p_plugins @ str_of ''.bak'')) = None"
proof -
  have s: "fault w_clean (OpStat p_plugins) = None" by (simp add: w_clean_def put_def w_fnv_def)
  have r: "fault w_clean (OpRead p_plugins) = None" by (simp add: w_clean_def put_def w_fnv_def)
  have n: "\<not> list_ex (pat_match (unicode w_clean)) (file_lines w_clean p_plugins)" by code_simp
  have l: "length (file_lines w_clean p_plugins) = 2" by code_simp
  have l0: "length (filter (pat_match (unicode w_clean)) (file_lines w_clean p_plugins)) = 0"
    by code_simp
  have b: "nodes w_clean (child p_fresh (name p_plugins @ str_of ''.bak'')) = None" by code_simp
  show ?thesis using strip_frame(2)[OF n s r] l l0 b by simp
qed

text \<open>
  Claim C5.  Collapsing twice gives what collapsing once gives (the same list, hence
  the same set).
\<close>

theorem collapse_idempotent:
  "collapse_covered_paths u fl (collapse_covered_paths u fl paths)
   = collapse_covered_paths u fl paths"
proof -
  let ?out = "collapse_covered_paths u fl paths"
  have s: "sort_key (depth_key u fl) ?out = ?out"
    by (rule sort_key_id_if_sorted) (rule sorted_collapse)
  have sub: "set (map (path_key u fl) ?out) \<subseteq> set (map (path_key u fl) paths)"
    using collapse_subset[of u fl paths] by auto
  have "\<not> covered u fl (set (map (path_key u fl) ?out)) p" if "p \<in> set ?out" for p
    using collapse_not_covered[OF that] covered_mono[OF sub] by blast
  then have "filter (\<lambda>p. \<not> covered u fl (set (map (path_key u fl) ?out)) p) ?out = ?out"
    by (simp add: filter_id_conv)
  then show ?thesis
    using s unfolding collapse_covered_paths_def[of u fl ?out] Let_def by simp
qed

text \<open>
  Claim C6.  The cap is tested only after a match has been recorded.  With a cap of 0
  the walk over the sample installation returns one match, which is more than the cap.
  (\<open>walk_cap_bound\<close> above: from a cap of 1 on, the result stays within the cap;
  \<open>walk_cap_one\<close>: with a cap of 1 and two artifacts, one match is returned, as a value
  and not as an exception.)
\<close>

theorem walk_cap_zero_returns_one:
  "walk_find_matches w_fnv [p_game] 0 = Inr [p_launcher] \<and> \<not> int (length [p_launcher]) \<le> 0"
  by code_simp

text \<open>
  Claim C7, as amended.  When \<open>build_roots\<close> returns a list, the list was cut from the
  candidates, among which are the directories the caller named; every root in it passed
  the existence test; the lower-cased strings of the roots differ pairwise; a candidate
  whose existence test says no is not in it; and every candidate that exists is
  represented, by itself or by a root with the same lower-cased string, so that
  spellings that differ in case yield one entry.  It returns a list whenever no
  existence test raises.  (An existence test that raises is not caught: see the
  counterexample.)
\<close>

theorem build_roots_existing_distinct:
  "(build_roots w g m v = Inr roots \<longrightarrow>
      (\<exists>cands. root_candidates w g m v = Inr cands
          \<and> set (given_candidates g m v) \<subseteq> set cands
          \<and> set roots \<subseteq> resolved w ` set cands
          \<and> (\<forall>c \<in> set cands. exists w (resolved w c) = Inr False \<longrightarrow> resolved w c \<notin> set roots)
          \<and> (\<forall>c \<in> set cands. exists w (resolved w c) = Inr True
                \<longrightarrow> seen_key w (resolved w c) \<in> seen_key w ` set roots))
      \<and> (\<forall>r \<in> set roots. exists w r = Inr True)
      \<and> distinct (map (seen_key w) roots))
   \<and> ((\<forall>p. fault w (OpStat p) = None) \<longrightarrow> (\<exists>roots. build_roots w g m v = Inr roots))"
proof (intro conjI impI)
  assume ok: "build_roots w g m v = Inr roots"
  then obtain cands where c: "root_candidates w g m v = Inr cands"
    and k: "keep_existing w cands [] {} = Inr roots"
    by (auto simp: build_roots_def split: sum.splits)
  have i: "roots_inv w [] {}" by (simp add: roots_inv_def)
  note spec = keep_existing_spec[OF k i]
  have ex: "\<forall>r \<in> set roots. exists w r = Inr True"
    using spec by (simp add: roots_inv_def list_all_iff)
  show "\<forall>r \<in> set roots. exists w r = Inr True" using ex .
  show "distinct (map (seen_key w) roots)" using spec by (simp add: roots_inv_def)
  have "set (given_candidates g m v) \<subseteq> set cands" using given_are_candidates[OF c] .
  moreover have "set roots \<subseteq> resolved w ` set cands" using spec by simp
  moreover have "\<forall>c \<in> set cands. exists w (resolved w c) = Inr False \<longrightarrow> resolved w c \<notin> set roots"
    using ex by auto
  moreover have "\<forall>c \<in> set cands. exists w (resolved w c) = Inr True
                  \<longrightarrow> seen_key w (resolved w c) \<in> seen_key w ` set roots"
    using spec by blast
  ultimately show "\<exists>cands. root_candidates w g m v = Inr cands
          \<and> set (given_candidates g m v) \<subseteq> set cands
          \<and> set roots \<subseteq> resolved w ` set cands
          \<and> (\<forall>c \<in> set cands. exists w (resolved w c) = Inr False \<longrightarrow> resolved w c \<notin> set roots)
          \<and> (\<forall>c \<in> set cands. exists w (resolved w c) = Inr True
                \<longrightarrow> seen_key w (resolved w c) \<in> seen_key w ` set roots)"
    using c by blast
next
  assume "\<forall>p. fault w (OpStat p) = None"
  then show "\<exists>roots. build_roots w g m v = Inr roots" by (rule build_roots_returns)
qed

text \<open>
  The game directory given twice on a Windows system, as game directory and as Vortex
  directory, in two spellings that differ in case; it has no \<open>Data\<close> folder.  Both
  spellings exist and have the same lower-cased string: one root is returned, and the
  \<open>Data\<close> folder is dropped.
\<close>

theorem build_roots_existing_distinct_witness:
  "build_roots w_win (Some p_fnv) None (Some p_fnv_lc) = Inr [p_fnv]
   \<and> (\<forall>p. fault w_win (OpStat p) = None)
   \<and> p_fnv \<in> set (given_candidates (Some p_fnv) None (Some p_fnv_lc))
   \<and> p_fnv_lc \<in> set (given_candidates (Some p_fnv) None (Some p_fnv_lc))
   \<and> child p_fnv (str_of ''Data'') \<in> set (given_candidates (Some p_fnv) None (Some p_fnv_lc))
   \<and> p_fnv \<noteq> p_fnv_lc
   \<and> exists w_win p_fnv = Inr True \<and> exists w_win p_fnv_lc = Inr True
   \<and> seen_key w_win p_fnv_lc = seen_key w_win p_fnv
   \<and> exists w_win (child p_fnv (str_of ''Data'')) = Inr False
   \<and> (\<exists>cands. root_candidates w_win (Some p_fnv) None (Some p_fnv_lc) = Inr cands
         \<and> set [p_fnv] \<subseteq> resolved w_win ` set cands)
   \<and> distinct (map (seen_key w_win) [p_fnv])"
proof -
  have e: "build_roots w_win (Some p_fnv) None (Some p_fnv_lc) = Inr [p_fnv]" by code_simp
  have f: "\<forall>p. fault w_win (OpStat p) = None" by (simp add: w_win_def)
  have g1: "p_fnv \<in> set (given_candidates (Some p_fnv) None (Some p_fnv_lc))" by code_simp
  have g2: "p_fnv_lc \<in> set (given_candidates (Some p_fnv) None (Some p_fnv_lc))" by code_simp
  have g3: "child p_fnv (str_of ''Data'') \<in> set (given_candidates (Some p_fnv) None (Some p_fnv_lc))"
    by code_simp
  have ne: "p_fnv \<noteq> p_fnv_lc" by code_simp
  have x1: "exists w_win p_fnv = Inr True" by code_simp
  have x2: "exists w_win p_fnv_lc = Inr True" by code_simp
  have k: "seen_key w_win p_fnv_lc = seen_key w_win p_fnv" by code_simp
  have x3: "exists w_win (child p_fnv (str_of ''Data'')) = Inr False" by code_simp
  show ?thesis
    using build_roots_existing_distinct[of w_win "Some p_fnv" None "Some p_fnv_lc" "[p_fnv]"]
      e f g1 g2 g3 ne x1 x2 k x3
    by blast
qed

text \<open>
  Claim C7 as first stated fails where an existence test raises: the test stands
  outside every \<open>try\<close>.  On a file system that refuses names of more than 255
  characters, with the game directory and a MO2 directory \<open>/aaa...a\<close> (300 letters) at
  which nothing is, the candidate is not dropped: \<open>build_roots\<close> raises the \<open>OSError\<close>
  of the test and returns no list.
\<close>

theorem build_roots_raises_on_long_name:
  "p_long \<in> set (given_candidates (Some p_game) (Some p_long) None)
   \<and> nodes w_long p_long = None
   \<and> build_roots w_long (Some p_game) (Some p_long) None = Inl name_too_long"
  by code_simp

text \<open>
  Claim C8, as amended.  \<open>remove_path\<close> and \<open>strip_nvmp_lines_from_text_file\<close> always
  return: the first a pair of the path and an outcome string, the second a list of
  messages.  An exception raised in the body becomes an \<open>ERROR\<close> string for that item,
  and the world is the one the failing call left.  A path of which the existence test
  says that it is not there gives \<open>SKIP (missing)\<close> from the remover and no message from
  the editor, and the world is unchanged.  When the existence test itself raises, the
  outcome is an \<open>ERROR\<close> string and not a skip, whether the path is there or not.
\<close>

theorem no_exception_escapes:
  "(\<exists>msg w'. remove_path w p b d = Ok (p, msg) w')
   \<and> (\<exists>msgs w'. strip_nvmp_lines_from_text_file w p b d = Ok msgs w')
   \<and> (remove_path_try w p b d = Err e w1
        \<longrightarrow> (\<exists>m. remove_path w p b d = Ok (p, str_of ''ERROR ('' @ m) w1))
   \<and> (strip_try w p b d = Err e w1
        \<longrightarrow> (\<exists>m. strip_nvmp_lines_from_text_file w p b d
                    = Ok [str_of ''ERROR editing '' @ path_str (flavour_of w) p @ str_of '': '' @ m] w1))
   \<and> (exists w p = Inr False
        \<longrightarrow> remove_path w p b d = Ok (p, str_of ''SKIP (missing)'') w
            \<and> strip_nvmp_lines_from_text_file w p b d = Ok [] w)
   \<and> (exists w p = Inl e
        \<longrightarrow> (\<exists>m. remove_path w p b d = Ok (p, str_of ''ERROR ('' @ m) w)
            \<and> (\<exists>m. strip_nvmp_lines_from_text_file w p b d
                    = Ok [str_of ''ERROR editing '' @ path_str (flavour_of w) p @ str_of '': '' @ m] w))"
proof -
  have r_err: "\<exists>m. remove_path w p b d = Ok (p, str_of ''ERROR ('' @ m) w2"
    if "remove_path_try w p b d = Err x w2" for x w2
    using that by (cases x) (simp_all add: remove_path_def str_of_def)
  have s_err: "\<exists>m. strip_nvmp_lines_from_text_file w p b d
              = Ok [str_of ''ERROR editing '' @ path_str (flavour_of w) p @ str_of '': '' @ m] w2"
    if "strip_try w p b d = Err x w2" for x w2
    using that by (cases x) (simp_all add: strip_nvmp_lines_from_text_file_def str_of_def)
  have 1: "\<exists>msg w'. remove_path w p b d = Ok (p, msg) w'"
  proof (cases "remove_path_try w p b d")
    case (Ok outcome w')
    then show ?thesis by (simp add: remove_path_def)
  next
    case (Err x w')
    then show ?thesis using r_err by blast
  qed
  have 2: "\<exists>msgs w'. strip_nvmp_lines_from_text_file w p b d = Ok msgs w'"
  proof (cases "strip_try w p b d")
    case (Ok msgs w')
    then show ?thesis by (simp add: strip_nvmp_lines_from_text_file_def)
  next
    case (Err x w')
    then show ?thesis using s_err by blast
  qed
  have 5: "remove_path w p b d = Ok (p, str_of ''SKIP (missing)'') w
           \<and> strip_nvmp_lines_from_text_file w p b d = Ok [] w"
    if "exists w p = Inr False"
    using that
    by (simp add: remove_path_def remove_path_try_def strip_nvmp_lines_from_text_file_def
        strip_try_def missing_or_no_file_def)
  have 6: "(\<exists>m. remove_path w p b d = Ok (p, str_of ''ERROR ('' @ m) w)
           \<and> (\<exists>m. strip_nvmp_lines_from_text_file w p b d
                   = Ok [str_of ''ERROR editing '' @ path_str (flavour_of w) p @ str_of '': '' @ m] w)"
    if x: "exists w p = Inl e"
  proof -
    have "remove_path_try w p b d = Err e w" using x by (simp add: remove_path_try_def)
    moreover have "strip_try w p b d = Err e w"
      using x by (simp add: strip_try_def missing_or_no_file_def)
    ultimately show ?thesis using r_err s_err by blast
  qed
  show ?thesis using 1 2 r_err s_err 5 6 by blast
qed

text \<open>
  A world that refuses to unlink and to read: both functions return an \<open>ERROR\<close> string.
  A path that is not there: the remover skips it.  A path with an over-long name, at
  which nothing is either: the existence test raises, and the remover reports an error.
\<close>

theorem no_exception_escapes_witness:
  "(\<exists>m w1. remove_path w_locked p_launcher None True = Ok (p_launcher, str_of ''ERROR ('' @ m) w1)
   \<and> (\<exists>m w1. strip_nvmp_lines_from_text_file w_locked p_plugins None True
               = Ok [str_of ''ERROR editing /game/Data/plugins.txt: '' @ m] w1)
   \<and> exists w_fnv p_fresh = Inr False
   \<and> remove_path w_fnv p_fresh (Some p_backups) False = Ok (p_fresh, str_of ''SKIP (missing)'') w_fnv
   \<and> exists w_long p_long = Inl name_too_long
   \<and> (\<exists>m. remove_path w_long p_long None True = Ok (p_long, str_of ''ERROR ('' @ m) w_long)"
proof -
  have "(case remove_path_try w_locked p_launcher None True of Ok m w \<Rightarrow> False | Err e w \<Rightarrow> True)"
    by code_simp
  then obtain e1 w1 where r: "remove_path_try w_locked p_launcher None True = Err e1 w1"
    by (cases "remove_path_try w_locked p_launcher None True") simp_all
  have "(case strip_try w_locked p_plugins None True of Ok m w \<Rightarrow> False | Err e w \<Rightarrow> True)"
    by code_simp
  then obtain e2 w2 where s: "strip_try w_locked p_plugins None True = Err e2 w2"
    by (cases "strip_try w_locked p_plugins None True") simp_all
  have ps: "str_of ''ERROR editing '' @ path_str (flavour_of w_locked) p_plugins @ str_of '': ''
            = str_of ''ERROR editing /game/Data/plugins.txt: ''" by code_simp
  have n: "exists w_fnv p_fresh = Inr False" by code_simp
  have l: "exists w_long p_long = Inl name_too_long" by code_simp
  have a: "\<exists>m w1. remove_path w_locked p_launcher None True = Ok (p_launcher, str_of ''ERROR ('' @ m) w1"
    using no_exception_escapes[of w_locked p_launcher None True e1 w1] r by blast
  have "\<exists>m. strip_nvmp_lines_from_text_file w_locked p_plugins None True
          = Ok [str_of ''ERROR editing '' @ path_str (flavour_of w_locked) p_plugins @ str_of '': '' @ m] w2"
    using no_exception_escapes[of w_locked p_plugins None True e2 w2] s by blast
  then have b: "\<exists>m w1. strip_nvmp_lines_from_text_file w_locked p_plugins None True
               = Ok [str_of ''ERROR editing /game/Data/plugins.txt: '' @ m] w1"
    using ps by (metis append_assoc)
  have c: "remove_path w_fnv p_fresh (Some p_backups) False = Ok (p_fresh, str_of ''SKIP (missing)'') w_fnv"
    using no_exception_escapes[of w_fnv p_fresh "Some p_backups" False] n by blast
  have d: "\<exists>m. remove_path w_long p_long None True = Ok (p_long, str_of ''ERROR ('' @ m) w_long"
    using no_exception_escapes[of w_long p_long None True name_too_long] l by blast
  show ?thesis using a b n c l d by blast
qed

text \<open>
  Claim C8 as first stated fails for a path that no longer exists but whose existence
  test raises: nothing is at \<open>/aaa...a\<close> (300 letters), \<open>Path.exists\<close> raises \<open>OSError\<close>
  for the over-long name, and the outcome is an error and not a skip.
\<close>

theorem missing_long_name_is_error_not_skip:
  "nodes w_long p_long = None
   \<and> remove_path w_long p_long None True
       = Ok (p_long, str_of ''ERROR (OSError: [Errno 36] File name too long)'') w_long
   \<and> str_of ''ERROR (OSError: [Errno 36] File name too long)'' \<noteq> str_of ''SKIP (missing)''"
proof -
  have n: "nodes w_long p_long = None" by code_simp
  have f: "fault w_long (OpStat p_long)
           = Some (OtherException (str_of ''OSError'') (str_of ''[Errno 36] File name too long''))"
    by code_simp
  have m: "str_of ''ERROR ('' @ str_of ''OSError'' @ str_of '': ''
             @ str_of ''[Errno 36] File name too long'' @ str_of '')''
           = str_of ''ERROR (OSError: [Errno 36] File name too long)''" by code_simp
  have d: "str_of ''ERROR (OSError: [Errno 36] File name too long)'' \<noteq> str_of ''SKIP (missing)''"
    by code_simp
  show ?thesis using remove_path_stat_refused[OF f, of None True] n m d by simp
qed

text \<open>
  Claim C9, as amended.  When no line of the file matches, the editor leaves the world
  as it was: the file is not rewritten and no backup copy is written.  It returns no
  message, or one \<open>ERROR\<close> message; when neither the existence tests nor reading the
  file fail, it returns no message.
\<close>

theorem strip_without_match_is_noop:
  assumes "\<not> list_ex (pat_match (unicode w)) (file_lines w p)"
  shows "(strip_nvmp_lines_from_text_file w p b d = Ok [] w
          \<or> (\<exists>m. strip_nvmp_lines_from_text_file w p b d
                   = Ok [str_of ''ERROR editing '' @ path_str (flavour_of w) p @ str_of '': '' @ m] w))
     \<and> (fault w (OpStat p) = None \<and> fault w (OpRead p) = None
          \<longrightarrow> strip_nvmp_lines_from_text_file w p b d = Ok [] w)"
proof -
  have "strip_nvmp_lines_from_text_file w p b d = Ok [] w
        \<or> (\<exists>m. strip_nvmp_lines_from_text_file w p b d
                 = Ok [str_of ''ERROR editing '' @ path_str (flavour_of w) p @ str_of '': '' @ m] w)"
  proof (cases "strip_try w p b d = Ok [] w")
    case True
    then show ?thesis using strip_try_Ok_public by blast
  next
    case False
    then obtain e where e: "strip_try w p b d = Err e w"
      using strip_try_no_match[OF assms, of b d] by blast
    have "\<exists>m. strip_nvmp_lines_from_text_file w p b d
                 = Ok [str_of ''ERROR editing '' @ path_str (flavour_of w) p @ str_of '': '' @ m] w"
      using e by (cases e) (simp_all add: strip_nvmp_lines_from_text_file_def str_of_def)
    then show ?thesis by blast
  qed
  then show ?thesis using strip_frame(2)[OF assms] by blast
qed

text \<open>
  The clean load list of two lines, in backup mode.
\<close>

theorem strip_without_match_is_noop_witness:
  "file_at w_clean p_plugins \<and> length (file_lines w_clean p_plugins) = 2
   \<and> \<not> list_ex (pat_match (unicode w_clean)) (file_lines w_clean p_plugins)
   \<and> fault w_clean (OpStat p_plugins) = None \<and> fault w_clean (OpRead p_plugins) = None
   \<and> strip_nvmp_lines_from_text_file w_clean p_plugins (Some p_fresh) False = Ok [] w_clean"
proof -
  have f: "file_at w_clean p_plugins" by code_simp
  have l: "length (file_lines w_clean p_plugins) = 2" by code_simp
  have s: "fault w_clean (OpStat p_plugins) = None" by (simp add: w_clean_def put_def w_fnv_def)
  have r: "fault w_clean (OpRead p_plugins) = None" by (simp add: w_clean_def put_def w_fnv_def)
  have n: "\<not> list_ex (pat_match (unicode w_clean)) (file_lines w_clean p_plugins)" by code_simp
  show ?thesis
    using strip_without_match_is_noop[OF n, of "Some p_fresh" False] f l s r n by blast
qed

text \<open>
  Claim C9 as first stated fails where reading the file fails: the clean load list of
  two lines, none of which matches, in a world that refuses to read.  The file stays as
  it was, but a result message is produced.
\<close>

theorem unreadable_file_without_match_gives_message:
  "file_at w_unreadable p_plugins
   \<and> \<not> list_ex (pat_match (unicode w_unreadable)) (file_lines w_unreadable p_plugins)
   \<and> strip_nvmp_lines_from_text_file w_unreadable p_plugins (Some p_fresh) False
       = Ok [str_of ''ERROR editing /game/Data/plugins.txt: OSError: [Errno 5] Input/output error'']
            w_unreadable"
proof -
  have f: "file_at w_unreadable p_plugins" by code_simp
  have c: "nodes w_unreadable p_plugins = Some (File clean_text)" by code_simp
  have n: "\<not> list_ex (pat_match (unicode w_unreadable)) (file_lines w_unreadable p_plugins)"
    by code_simp
  have s: "fault w_unreadable (OpStat p_plugins) = None" by code_simp
  have r: "fault w_unreadable (OpRead p_plugins)
           = Some (OtherException (str_of ''OSError'') (str_of ''[Errno 5] Input/output error''))"
    by code_simp
  have m: "str_of ''ERROR editing '' @ path_str (flavour_of w_unreadable) p_plugins @ str_of '': ''
             @ str_of ''OSError'' @ str_of '': '' @ str_of ''[Errno 5] Input/output error''
           = str_of ''ERROR editing /game/Data/plugins.txt: OSError: [Errno 5] Input/output error''"
    by code_simp
  show ?thesis using strip_read_refused[OF c s r, of "Some p_fresh" False] f n m by simp
qed

text \<open>
  Claim C10.  Whatever list \<open>walk_find_matches\<close> returns, early or at the end, the
  lower-cased path strings of its entries differ pairwise.
\<close>

theorem walk_matches_distinct_keys:
  "walk_find_matches w roots mx = Inr ms \<Longrightarrow> distinct (map (seen_key w) ms)"
  using scan_roots_inv[of w "[]" "{}" mx roots]
  by (auto simp: walk_find_matches_def scan_ok_def scan_inv_def distinct_map_sort_key
           split: scan.splits)

text \<open>
  Walking the game directory and its \<open>Data\<close> folder meets every artifact twice; the
  result holds each once.
\<close>

theorem walk_matches_distinct_keys_witness:
  "walk_find_matches w_fnv [p_game, p_data] 10000 = Inr [p_log, p_launcher]
   \<and> distinct (map (seen_key w_fnv) [p_log, p_launcher])"
proof -
  have e: "walk_find_matches w_fnv [p_game, p_data] 10000 = Inr [p_log, p_launcher]"
    by code_simp
  show ?thesis using walk_matches_distinct_keys[OF e] e by simp
qed

end
